theory Spec2Isabelle
  imports Main "HOL-Library.Sublist"
begin

section \<open>Promises and futures\<close>

text \<open>
  The executor of \<^verbatim>\<open>async_callback.h\<close> hands every submission a
  \<^verbatim>\<open>std::promise\<close>/\<^verbatim>\<open>std::future\<close> pair. The two ends share one
  state, which is empty until the promise stores a value or an exception, once.
  A second store throws \<^verbatim>\<open>std::future_error\<close> (promise already satisfied).
\<close>

datatype exn = User_exception nat | Promise_already_satisfied

datatype 'a shared_state = Pending | Fulfilled 'a | Failed exn

fun set_value :: "'a \<Rightarrow> 'a shared_state \<Rightarrow> exn + 'a shared_state" where
  "set_value v Pending = Inr (Fulfilled v)"
| "set_value v (Fulfilled w) = Inl Promise_already_satisfied"
| "set_value v (Failed e) = Inl Promise_already_satisfied"

fun set_exception :: "exn \<Rightarrow> 'a shared_state \<Rightarrow> exn + 'a shared_state" where
  "set_exception e Pending = Inr (Failed e)"
| "set_exception e (Fulfilled w) = Inl Promise_already_satisfied"
| "set_exception e (Failed d) = Inl Promise_already_satisfied"

text \<open>\<^verbatim>\<open>future.wait()\<close> returns once the shared state is ready.\<close>

fun ready :: "'a shared_state \<Rightarrow> bool" where
  "ready Pending = False"
| "ready (Fulfilled v) = True"
| "ready (Failed e) = True"

text \<open>
  A \<^verbatim>\<open>std::future\<close> object refers to the shared state of a promise, or to none:
  \<^verbatim>\<open>future.share()\<close> moves the state into the \<^verbatim>\<open>std::shared_future\<close> it
  returns and leaves the future without one (\<^verbatim>\<open>valid()\<close> is false).
\<close>

datatype future = No_state | Has_state nat

text \<open>
  \<^verbatim>\<open>future.get()\<close>, given the states of the promises: it blocks while the state is
  pending, then yields the value or rethrows the stored exception. On a future without a
  state the behaviour is undefined (libstdc++ throws \<^verbatim>\<open>std::future_error\<close>, no state).
\<close>

datatype 'a got = Blocks | Value 'a | Rethrows exn | Undefined_no_state

fun get :: "(nat \<Rightarrow> 'a shared_state) \<Rightarrow> future \<Rightarrow> 'a got" where
  "get states No_state = Undefined_no_state"
| "get states (Has_state p) =
     (case states p of Pending \<Rightarrow> Blocks | Fulfilled v \<Rightarrow> Value v | Failed e \<Rightarrow> Rethrows e)"

section \<open>Tasks\<close>

text \<open>
  A user callback is a \<^verbatim>\<open>std::function\<close> without arguments. The executor sees
  of a call only whether it returns (and what) or throws.
\<close>

datatype 'a outcome = Returns 'a | Throws exn

text \<open>
  The queue holds the wrapper lambdas that \<^verbatim>\<open>Post\<close> builds:
  \<open>Untyped callback promise\<close> captures the callback and its void promise (lines 67-74),
  \<open>Typed callback promise void_promise\<close> captures the callback, its typed promise and
  the void promise registered for \<^verbatim>\<open>WaitAll\<close> (lines 100-109). Promises are named
  by the number of their allocation.
\<close>

datatype 'v task = Untyped "unit outcome" nat | Typed "'v outcome" nat nat

fun ids :: "'v task \<Rightarrow> nat list" where
  "ids (Untyped callback promise) = [promise]"
| "ids (Typed callback promise void_promise) = [promise, void_promise]"

text \<open>The void future of a task: the one \<^verbatim>\<open>Post\<close> stores in \<^verbatim>\<open>pending_futures_\<close>.\<close>

fun void_future :: "'v task \<Rightarrow> nat" where
  "void_future (Untyped callback promise) = promise"
| "void_future (Typed callback promise void_promise) = void_promise"

section \<open>The executor and its threads\<close>

text \<open>
  Where a worker thread stands in \<^verbatim>\<open>WorkerLoop\<close> (lines 151-168):
  \<open>W_wait\<close> at \<^verbatim>\<open>cv_.wait\<close> (line 154); \<open>W_call w\<close> with the lock released and
  the wrapper \<open>w\<close> popped and called (line 164), inside the user callback (line 69 or
  102); \<open>W_103 w\<close> in a typed wrapper after \<^verbatim>\<open>promise->set_value\<close>, before line 103;
  \<open>W_107 w e\<close> in its handler after \<^verbatim>\<open>promise->set_exception\<close>, before line 107, with
  the exception caught; \<open>W_in_WaitAll w rest\<close> inside a \<^verbatim>\<open>WaitAll\<close> that the callback
  called on its own executor, with the futures still to wait for; \<open>W_inner\<close> at
  \<^verbatim>\<open>lock.lock()\<close> (line 165) before the test of the inner loop; \<open>W_exited\<close> after the
  \<^verbatim>\<open>break\<close>.
\<close>

datatype 'v worker_pc =
    W_wait
  | W_call "'v task"
  | W_103 "'v task"
  | W_107 "'v task" exn
  | W_in_WaitAll "'v task" "nat list"
  | W_inner
  | W_exited

text \<open>
  Where a client thread stands: outside every member function, inside \<^verbatim>\<open>Stop\<close>
  after the critical section (lines 45-48), or inside the loop of \<^verbatim>\<open>WaitAll\<close>
  (lines 126-128). \<open>In_Stop q\<close> remembers the queue \<open>q\<close> as it was when the flag was
  cleared; \<open>In_WaitAll snapshot rest\<close> remembers the copied vector and the futures
  still to wait for.
\<close>

datatype 'v client_pc = Idle | In_Stop "'v task list" | In_WaitAll "nat list" "nat list"

text \<open>
  The process: \<open>Terminated\<close> after \<^verbatim>\<open>std::terminate\<close>; \<open>Destructing\<close> while the
  destructor of the executor runs; \<open>Destroyed\<close> after it.
\<close>

datatype status = Live | Destructing | Destroyed | Terminated

text \<open>
  The first four fields are the members of \<^verbatim>\<open>class AsyncCallback\<close> (lines
  172-175); the mutex and the condition variable have no state of their own here:
  a critical section is one step, and a wait is a step that is enabled when its predicate
  holds. \<open>worker_thread = Some t\<close> is a joinable \<^verbatim>\<open>std::thread\<close> for thread \<open>t\<close>.
  The promise states, the threads and the clients are the world around the object.
  \<open>posted\<close> and \<open>executed\<close> are histories no operation reads: the wrappers pushed to the
  queue, and the wrappers whose call has returned, in order.
\<close>

record 'v state =
  callbacks :: "'v task list"
  pending_futures :: "nat list"
  worker_thread :: "nat option"
  running :: bool
  void_states :: "nat \<Rightarrow> unit shared_state"
  typed_states :: "nat \<Rightarrow> 'v shared_state"
  fresh :: nat
  threads :: "'v worker_pc list"
  clients :: "'v client_pc list"
  status :: status
  posted :: "'v task list"
  executed :: "'v task list"

text \<open>The constructor (line 23), with \<open>n\<close> client threads around the object.\<close>

definition init :: "nat \<Rightarrow> 'v state" where
  "init n = \<lparr> callbacks = [], pending_futures = [], worker_thread = None, running = False,
     void_states = (\<lambda>_. Pending), typed_states = (\<lambda>_. Pending), fresh = 0,
     threads = [], clients = replicate n Idle, status = Live, posted = [], executed = [] \<rparr>"

subsection \<open>Start\<close>

text \<open>
  \<^verbatim>\<open>StartUnlocked\<close> (lines 144-149). The \<^verbatim>\<open>std::thread\<close> temporary starts the
  new thread; its move assignment to \<^verbatim>\<open>worker_thread_\<close> calls
  \<^verbatim>\<open>std::terminate\<close> when \<^verbatim>\<open>worker_thread_\<close> is still joinable.
\<close>

definition StartUnlocked :: "'v state \<Rightarrow> 'v state" where
  "StartUnlocked s =
     (if \<not> running s then
        (let s1 = s\<lparr>running := True\<rparr>;
             t = length (threads s1);
             s2 = s1\<lparr>threads := threads s1 @ [W_wait]\<rparr>
         in case worker_thread s2 of
              Some old \<Rightarrow> s2\<lparr>status := Terminated\<rparr>
            | None \<Rightarrow> s2\<lparr>worker_thread := Some t\<rparr>)
      else s)"

definition Start :: "'v state \<Rightarrow> 'v state" where
  "Start s = StartUnlocked s"

subsection \<open>Post\<close>

text \<open>
  \<^verbatim>\<open>Post\<close> (lines 56-78) returns its local \<^verbatim>\<open>future\<close> and the new state. Line 66
  registers \<^verbatim>\<open>future.share()\<close>, which takes the shared state out of \<^verbatim>\<open>future\<close>, so
  the future returned at line 77 has none. Nothing follows a \<^verbatim>\<open>std::terminate\<close>.
\<close>

definition Post :: "unit outcome \<Rightarrow> 'v state \<Rightarrow> future \<times> 'v state" where
  "Post callback s =
     (let promise = fresh s;
          future = Has_state promise;
          s1 = s\<lparr>void_states := (void_states s)(promise := Pending), fresh := Suc promise\<rparr>;
          s2 = (if \<not> running s1 then StartUnlocked s1 else s1)
      in if status s2 = Terminated then (future, s2)
         else (No_state,
           s2\<lparr>pending_futures := pending_futures s2 @ [promise],
              callbacks := callbacks s2 @ [Untyped callback promise],
              posted := posted s2 @ [Untyped callback promise]\<rparr>))"

text \<open>
  \<^verbatim>\<open>Post<T>\<close> (lines 86-113): the future that is shared at line 99 is the local
  \<^verbatim>\<open>void_future\<close>; the typed future returned at line 112 keeps its state.
\<close>

definition Post_typed :: "'v outcome \<Rightarrow> 'v state \<Rightarrow> future \<times> 'v state" where
  "Post_typed callback s =
     (let promise = fresh s;
          future = Has_state promise;
          s1 = s\<lparr>typed_states := (typed_states s)(promise := Pending), fresh := Suc promise\<rparr>;
          s2 = (if \<not> running s1 then StartUnlocked s1 else s1)
      in if status s2 = Terminated then (future, s2)
         else
           (let void_promise = fresh s2;
                s3 = s2\<lparr>void_states := (void_states s2)(void_promise := Pending),
                        fresh := Suc void_promise\<rparr>
            in (future,
              s3\<lparr>pending_futures := pending_futures s3 @ [void_promise],
                 callbacks := callbacks s3 @ [Typed callback promise void_promise],
                 posted := posted s3 @ [Typed callback promise void_promise]\<rparr>)))"

subsection \<open>The wrapper lambdas\<close>

text \<open>
  A block of statements either completes with a new state or throws, leaving the state as
  it was at the throw.
\<close>

type_synonym 'v block = "(exn \<times> 'v state) + 'v state"

definition try_catch :: "'v block \<Rightarrow> (exn \<Rightarrow> 'v state \<Rightarrow> 'v block) \<Rightarrow> 'v block" where
  "try_catch body handler = (case body of Inr s \<Rightarrow> Inr s | Inl (e, s) \<Rightarrow> handler e s)"

definition void_set_value :: "nat \<Rightarrow> 'v state \<Rightarrow> 'v block" where
  "void_set_value p s =
     (case set_value () (void_states s p) of
        Inl e \<Rightarrow> Inl (e, s)
      | Inr c \<Rightarrow> Inr (s\<lparr>void_states := (void_states s)(p := c)\<rparr>))"

definition void_set_exception :: "nat \<Rightarrow> exn \<Rightarrow> 'v state \<Rightarrow> 'v block" where
  "void_set_exception p e s =
     (case set_exception e (void_states s p) of
        Inl e' \<Rightarrow> Inl (e', s)
      | Inr c \<Rightarrow> Inr (s\<lparr>void_states := (void_states s)(p := c)\<rparr>))"

definition typed_set_value :: "nat \<Rightarrow> 'v \<Rightarrow> 'v state \<Rightarrow> 'v block" where
  "typed_set_value p v s =
     (case set_value v (typed_states s p) of
        Inl e \<Rightarrow> Inl (e, s)
      | Inr c \<Rightarrow> Inr (s\<lparr>typed_states := (typed_states s)(p := c)\<rparr>))"

definition typed_set_exception :: "nat \<Rightarrow> exn \<Rightarrow> 'v state \<Rightarrow> 'v block" where
  "typed_set_exception p e s =
     (case set_exception e (typed_states s p) of
        Inl e' \<Rightarrow> Inl (e', s)
      | Inr c \<Rightarrow> Inr (s\<lparr>typed_states := (typed_states s)(p := c)\<rparr>))"

text \<open>
  The untyped wrapper, lines 67-74, from the return or throw of the callback on:
  \<^verbatim>\<open>try { callback(); promise->set_value(); } catch (...) { promise->set_exception(...); }\<close>
  It makes one store at most.
\<close>

definition untyped_wrapper :: "unit outcome \<Rightarrow> nat \<Rightarrow> 'v state \<Rightarrow> 'v block" where
  "untyped_wrapper callback promise s =
     try_catch
       (case callback of
          Throws e \<Rightarrow> Inl (e, s)
        | Returns u \<Rightarrow> void_set_value promise s)
       (\<lambda>e s'. void_set_exception promise e s')"

text \<open>
  The typed wrapper, lines 100-109:
  \<^verbatim>\<open>try { promise->set_value(callback()); void_promise->set_value(); }\<close>
  \<^verbatim>\<open>catch (...) { promise->set_exception(e); void_promise->set_exception(e); }\<close>
  Its stores are made one after the other with the mutex released, so each is a step of
  its own. A piece of the wrapper ends in the place where the thread stands next and the
  new state, or with an exception that leaves the handler (\<open>Inl\<close>).
\<close>

type_synonym 'v piece = "(exn \<times> 'v state) + ('v worker_pc \<times> 'v state)"

text \<open>Line 106, the first store of the handler.\<close>

definition typed_106 :: "'v task \<Rightarrow> nat \<Rightarrow> exn \<Rightarrow> 'v state \<Rightarrow> 'v piece" where
  "typed_106 w promise e s =
     (case typed_set_exception promise e s of
        Inl x \<Rightarrow> Inl x
      | Inr s' \<Rightarrow> Inr (W_107 w e, s'))"

text \<open>Line 102, from the return or throw of the callback on.\<close>

definition typed_102 :: "'v task \<Rightarrow> 'v outcome \<Rightarrow> nat \<Rightarrow> 'v state \<Rightarrow> 'v piece" where
  "typed_102 w callback promise s =
     (case (case callback of
              Throws e \<Rightarrow> Inl (e, s)
            | Returns v \<Rightarrow> typed_set_value promise v s) of
        Inr s' \<Rightarrow> Inr (W_103 w, s')
      | Inl (e, s') \<Rightarrow> typed_106 w promise e s')"

text \<open>Line 103; the wrapper returns after it.\<close>

definition typed_103 :: "'v task \<Rightarrow> nat \<Rightarrow> nat \<Rightarrow> 'v state \<Rightarrow> 'v piece" where
  "typed_103 w promise void_promise s =
     (case void_set_value void_promise s of
        Inr s' \<Rightarrow> Inr (W_inner, s')
      | Inl (e, s') \<Rightarrow> typed_106 w promise e s')"

text \<open>Line 107; the wrapper returns after it.\<close>

definition typed_107 :: "nat \<Rightarrow> exn \<Rightarrow> 'v state \<Rightarrow> 'v piece" where
  "typed_107 void_promise e s =
     (case void_set_exception void_promise e s of
        Inl x \<Rightarrow> Inl x
      | Inr s' \<Rightarrow> Inr (W_inner, s'))"

text \<open>The next piece of the wrapper a thread is in; \<open>None\<close> when it is in none.\<close>

fun wrapper_step :: "'v worker_pc \<Rightarrow> 'v state \<Rightarrow> 'v piece option" where
  "wrapper_step (W_call (Untyped callback promise)) s =
     Some (case untyped_wrapper callback promise s of
             Inl x \<Rightarrow> Inl x
           | Inr s' \<Rightarrow> Inr (W_inner, s'))"
| "wrapper_step (W_call (Typed callback promise void_promise)) s =
     Some (typed_102 (Typed callback promise void_promise) callback promise s)"
| "wrapper_step (W_103 (Typed callback promise void_promise)) s =
     Some (typed_103 (Typed callback promise void_promise) promise void_promise s)"
| "wrapper_step (W_107 (Typed callback promise void_promise) e) s =
     Some (typed_107 void_promise e s)"
| "wrapper_step pc s = None"

subsection \<open>The worker\<close>

definition set_pc :: "nat \<Rightarrow> 'v worker_pc \<Rightarrow> 'v state \<Rightarrow> 'v state" where
  "set_pc t pc s = s\<lparr>threads := (threads s)[t := pc]\<rparr>"

text \<open>The wrapper a thread has popped and not yet returned from.\<close>

fun in_call :: "'v worker_pc \<Rightarrow> 'v task list" where
  "in_call (W_call w) = [w]"
| "in_call (W_103 w) = [w]"
| "in_call (W_107 w e) = [w]"
| "in_call (W_in_WaitAll w rest) = [w]"
| "in_call pc = []"

text \<open>
  One test of the inner loop (lines 160-163), under the lock: pop the front and release
  the lock to call it, or leave the loop, release the lock and go back to the wait.
\<close>

definition inner_loop :: "nat \<Rightarrow> 'v state \<Rightarrow> 'v state" where
  "inner_loop t s =
     (case callbacks s of
        [] \<Rightarrow> set_pc t W_wait s
      | callback # rest \<Rightarrow> set_pc t (W_call callback) (s\<lparr>callbacks := rest\<rparr>))"

text \<open>
  One step of thread \<open>t\<close> in \<^verbatim>\<open>WorkerLoop\<close> (lines 151-168); \<open>None\<close> when the thread
  is blocked, has finished or is inside a member function its callback called. A step
  inside a wrapper is its next piece; the wrapper has returned when the thread stands at
  line 165. An exception that leaves a wrapper leaves the thread function:
  \<^verbatim>\<open>std::terminate\<close>.
\<close>

definition WorkerLoop :: "nat \<Rightarrow> 'v state \<Rightarrow> 'v state option" where
  "WorkerLoop t s =
     (if t < length (threads s) then
        (case threads s ! t of
           W_wait \<Rightarrow>
             if callbacks s \<noteq> [] \<or> \<not> running s then
               (if \<not> running s \<and> callbacks s = [] then Some (set_pc t W_exited s)
                else Some (inner_loop t s))
             else None
         | W_inner \<Rightarrow> Some (inner_loop t s)
         | W_exited \<Rightarrow> None
         | pc \<Rightarrow>
             (case wrapper_step pc s of
                None \<Rightarrow> None
              | Some (Inl (e, s')) \<Rightarrow> Some (s'\<lparr>status := Terminated\<rparr>)
              | Some (Inr (pc', s')) \<Rightarrow>
                  if pc' = W_inner
                  then Some (set_pc t W_inner (s'\<lparr>executed := executed s' @ in_call pc\<rparr>))
                  else Some (set_pc t pc' s')))
      else None)"

subsection \<open>Stop, WaitAll, GetPendingCount, the destructor\<close>

text \<open>
  The critical section of \<^verbatim>\<open>Stop\<close> (lines 38-44): \<open>True\<close> when it returns at once.
\<close>

definition Stop_locked :: "'v state \<Rightarrow> bool \<times> 'v state" where
  "Stop_locked s = (if \<not> running s then (True, s) else (False, s\<lparr>running := False\<rparr>))"

text \<open>
  The rest of \<^verbatim>\<open>Stop\<close> (lines 45-48): \<^verbatim>\<open>join\<close> returns when the thread has
  finished, and leaves \<^verbatim>\<open>worker_thread_\<close> not joinable; \<open>None\<close> while it blocks.
\<close>

definition Stop_join :: "'v state \<Rightarrow> 'v state option" where
  "Stop_join s =
     (case worker_thread s of
        None \<Rightarrow> Some s
      | Some t \<Rightarrow>
          if t < length (threads s) \<and> threads s ! t = W_exited
          then Some (s\<lparr>worker_thread := None\<rparr>) else None)"

text \<open>The critical section of \<^verbatim>\<open>WaitAll\<close> (lines 119-124): the copy and the new state.\<close>

definition WaitAll_locked :: "'v state \<Rightarrow> nat list \<times> 'v state" where
  "WaitAll_locked s = (pending_futures s, s\<lparr>pending_futures := []\<rparr>)"

definition GetPendingCount :: "'v state \<Rightarrow> nat" where
  "GetPendingCount s = length (callbacks s)"

text \<open>
  After the body of the destructor (line 24) the members are destroyed: the destructor of a
  joinable \<^verbatim>\<open>std::thread\<close> calls \<^verbatim>\<open>std::terminate\<close>.
\<close>

definition destroy_members :: "'v state \<Rightarrow> 'v state" where
  "destroy_members s =
     (case worker_thread s of
        Some t \<Rightarrow> s\<lparr>status := Terminated\<rparr>
      | None \<Rightarrow> s\<lparr>status := Destroyed\<rparr>)"

section \<open>Interleavings\<close>

text \<open>
  The steps of the threads. A client \<open>c\<close> calls a member function when it is idle.
  \<^verbatim>\<open>Start\<close> and \<^verbatim>\<open>Post\<close> are one critical section each; \<^verbatim>\<open>Stop\<close> is its
  critical section and then the join; \<^verbatim>\<open>WaitAll\<close> is its critical section and then
  one step for each future of the copy. The destructor runs when no client is inside a
  member function, and no client calls a member function after it has begun.

  A callback is user code that runs on the worker thread \<open>t\<close> with the lock released; it
  may call the member functions of its own executor before it returns or throws, also
  while \<^verbatim>\<open>Stop\<close> or the destructor waits in the join: the \<open>Task\<close> events. A \<^verbatim>\<open>Stop\<close>
  called by a callback clears the flag and then joins its own thread, which throws
  \<^verbatim>\<open>std::system_error\<close> (resource deadlock would occur) into the callback and leaves
  \<^verbatim>\<open>worker_thread_\<close> joinable; a \<^verbatim>\<open>WaitAll\<close> called by a callback waits on the worker
  thread.
\<close>

datatype 'v event =
    Call_Start nat
  | Call_Post nat "unit outcome"
  | Call_Post_typed nat "'v outcome"
  | Stop_enter nat
  | Stop_return nat
  | WaitAll_enter nat
  | WaitAll_wait nat
  | WaitAll_return nat
  | Destructor nat
  | Worker nat
  | Task_Start nat
  | Task_Post nat "unit outcome"
  | Task_Post_typed nat "'v outcome"
  | Task_Stop nat
  | Task_WaitAll_enter nat
  | Task_WaitAll_wait nat
  | Task_WaitAll_return nat

definition idle :: "nat \<Rightarrow> 'v state \<Rightarrow> bool" where
  "idle c s = (status s = Live \<and> c < length (clients s) \<and> clients s ! c = Idle)"

definition set_client :: "nat \<Rightarrow> 'v client_pc \<Rightarrow> 'v state \<Rightarrow> 'v state" where
  "set_client c pc s = s\<lparr>clients := (clients s)[c := pc]\<rparr>"

text \<open>Thread \<open>t\<close> is inside a callback, or inside a \<^verbatim>\<open>WaitAll\<close> the callback called.\<close>

definition at_pc :: "nat \<Rightarrow> 'v state \<Rightarrow> 'v worker_pc option" where
  "at_pc t s =
     (if (status s = Live \<or> status s = Destructing) \<and> t < length (threads s)
      then Some (threads s ! t) else None)"

fun in_callback :: "nat \<Rightarrow> 'v state \<Rightarrow> bool" where
  "in_callback t s = (case at_pc t s of Some (W_call w) \<Rightarrow> True | _ \<Rightarrow> False)"

fun exec :: "'v event \<Rightarrow> 'v state \<Rightarrow> 'v state option" where
  "exec (Call_Start c) s = (if idle c s then Some (Start s) else None)"
| "exec (Call_Post c callback) s = (if idle c s then Some (snd (Post callback s)) else None)"
| "exec (Call_Post_typed c callback) s =
     (if idle c s then Some (snd (Post_typed callback s)) else None)"
| "exec (Stop_enter c) s =
     (if idle c s then
        (case Stop_locked s of
           (True, s') \<Rightarrow> Some s'
         | (False, s') \<Rightarrow> Some (set_client c (In_Stop (callbacks s)) s'))
      else None)"
| "exec (Stop_return c) s =
     (if (status s = Live \<or> status s = Destructing) \<and> c < length (clients s) then
        (case clients s ! c of
           In_Stop q \<Rightarrow>
             (case Stop_join s of
                None \<Rightarrow> None
              | Some s' \<Rightarrow>
                  if status s' = Destructing then Some (destroy_members (set_client c Idle s'))
                  else Some (set_client c Idle s'))
         | _ \<Rightarrow> None)
      else None)"
| "exec (WaitAll_enter c) s =
     (if idle c s then
        (case WaitAll_locked s of
           (futures, s') \<Rightarrow> Some (set_client c (In_WaitAll futures futures) s'))
      else None)"
| "exec (WaitAll_wait c) s =
     (if status s = Live \<and> c < length (clients s) then
        (case clients s ! c of
           In_WaitAll snapshot (future # rest) \<Rightarrow>
             if ready (void_states s future)
             then Some (set_client c (In_WaitAll snapshot rest) s) else None
         | _ \<Rightarrow> None)
      else None)"
| "exec (WaitAll_return c) s =
     (if status s = Live \<and> c < length (clients s) then
        (case clients s ! c of
           In_WaitAll snapshot [] \<Rightarrow> Some (set_client c Idle s)
         | _ \<Rightarrow> None)
      else None)"
| "exec (Destructor c) s =
     (if idle c s \<and> list_all (\<lambda>pc. pc = Idle) (clients s) then
        (case Stop_locked (s\<lparr>status := Destructing\<rparr>) of
           (True, s') \<Rightarrow> Some (destroy_members s')
         | (False, s') \<Rightarrow> Some (set_client c (In_Stop (callbacks s)) s'))
      else None)"
| "exec (Worker t) s =
     (if status s = Live \<or> status s = Destructing then WorkerLoop t s else None)"
| "exec (Task_Start t) s = (if in_callback t s then Some (Start s) else None)"
| "exec (Task_Post t callback) s =
     (if in_callback t s then Some (snd (Post callback s)) else None)"
| "exec (Task_Post_typed t callback) s =
     (if in_callback t s then Some (snd (Post_typed callback s)) else None)"
| "exec (Task_Stop t) s =
     (if in_callback t s then
        (case Stop_locked s of
           (True, s') \<Rightarrow> Some s'
         | (False, s') \<Rightarrow> if worker_thread s' = Some t then Some s' else Stop_join s')
      else None)"
| "exec (Task_WaitAll_enter t) s =
     (case at_pc t s of
        Some (W_call w) \<Rightarrow>
          (case WaitAll_locked s of
             (futures, s') \<Rightarrow> Some (set_pc t (W_in_WaitAll w futures) s'))
      | _ \<Rightarrow> None)"
| "exec (Task_WaitAll_wait t) s =
     (case at_pc t s of
        Some (W_in_WaitAll w (future # rest)) \<Rightarrow>
          if ready (void_states s future)
          then Some (set_pc t (W_in_WaitAll w rest) s) else None
      | _ \<Rightarrow> None)"
| "exec (Task_WaitAll_return t) s =
     (case at_pc t s of
        Some (W_in_WaitAll w []) \<Rightarrow> Some (set_pc t (W_call w) s)
      | _ \<Rightarrow> None)"

fun run :: "'v event list \<Rightarrow> 'v state \<Rightarrow> 'v state option" where
  "run [] s = Some s"
| "run (e # es) s = (case exec e s of None \<Rightarrow> None | Some s' \<Rightarrow> run es s')"

definition reach :: "'v state \<Rightarrow> bool" where
  "reach s = (\<exists>n es. run es (init n) = Some s)"

text \<open>A worker thread is live from its start to the end of \<^verbatim>\<open>WorkerLoop\<close>.\<close>

fun live :: "'v worker_pc \<Rightarrow> bool" where
  "live W_exited = False"
| "live pc = True"

definition live_workers :: "'v state \<Rightarrow> nat" where
  "live_workers s = length (filter live (threads s))"

text \<open>The wrappers popped from the queue whose call has not returned.\<close>

definition in_flight :: "'v state \<Rightarrow> 'v task list" where
  "in_flight s = concat (map in_call (threads s))"

section \<open>Invariants of the reachable states\<close>

text \<open>The state a promise ends in when its callback returns or throws.\<close>

fun final :: "'a outcome \<Rightarrow> 'a shared_state" where
  "final (Returns v) = Fulfilled v"
| "final (Throws e) = Failed e"

fun void_final :: "'a outcome \<Rightarrow> unit shared_state" where
  "void_final (Returns v) = Fulfilled ()"
| "void_final (Throws e) = Failed e"

fun settled :: "(nat \<Rightarrow> unit shared_state) \<Rightarrow> (nat \<Rightarrow> 'v shared_state) \<Rightarrow> 'v task \<Rightarrow> bool" where
  "settled vs ts (Untyped callback promise) = (vs promise = void_final callback)"
| "settled vs ts (Typed callback promise void_promise) =
     (ts promise = final callback \<and> vs void_promise = void_final callback)"

fun unsettled :: "(nat \<Rightarrow> unit shared_state) \<Rightarrow> (nat \<Rightarrow> 'v shared_state) \<Rightarrow> 'v task \<Rightarrow> bool" where
  "unsettled vs ts (Untyped callback promise) = (vs promise = Pending)"
| "unsettled vs ts (Typed callback promise void_promise) =
     (ts promise = Pending \<and> vs void_promise = Pending)"

text \<open>Every wrapper ever pushed is executed, in a call, or still queued, in this order.\<close>

definition inv_hist :: "'v state \<Rightarrow> bool" where
  "inv_hist s = (posted s = executed s @ in_flight s @ callbacks s)"

text \<open>
  Unless the process has terminated: with no joinable thread the executor is stopped,
  the queue is empty and every thread has finished; with a joinable thread \<open>t\<close> every
  other thread has finished, and \<open>t\<close> has finished only when the executor is stopped and
  the queue is empty.
\<close>

definition inv_threads :: "'v state \<Rightarrow> bool" where
  "inv_threads s =
     (status s \<noteq> Terminated \<longrightarrow>
       (worker_thread s = None \<longrightarrow>
          callbacks s = [] \<and> \<not> running s \<and> (\<forall>pc \<in> set (threads s). pc = W_exited)) \<and>
       (\<forall>t. worker_thread s = Some t \<longrightarrow>
          t < length (threads s) \<and>
          (\<forall>u < length (threads s). u \<noteq> t \<longrightarrow> threads s ! u = W_exited) \<and>
          (threads s ! t = W_exited \<longrightarrow> \<not> running s \<and> callbacks s = [])))"

text \<open>The promises of the pushed wrappers are allocated, and no two are the same.\<close>

definition inv_ids :: "'v state \<Rightarrow> bool" where
  "inv_ids s =
     (distinct (concat (map ids (posted s))) \<and>
      (\<forall>i \<in> set (concat (map ids (posted s))). i < fresh s))"

text \<open>
  The promises of the wrapper a thread is in: both pending while the callback runs; after
  the first store of a typed wrapper the typed promise holds the outcome and the void
  promise is still pending.
\<close>

fun pc_ok :: "(nat \<Rightarrow> unit shared_state) \<Rightarrow> (nat \<Rightarrow> 'v shared_state) \<Rightarrow> 'v worker_pc \<Rightarrow> bool" where
  "pc_ok vs ts (W_call w) = unsettled vs ts w"
| "pc_ok vs ts (W_in_WaitAll w rest) = unsettled vs ts w"
| "pc_ok vs ts (W_103 (Typed callback promise void_promise)) =
     (ts promise = final callback \<and> void_final callback = Fulfilled () \<and>
      vs void_promise = Pending)"
| "pc_ok vs ts (W_103 (Untyped callback promise)) = False"
| "pc_ok vs ts (W_107 (Typed callback promise void_promise) e) =
     (ts promise = final callback \<and> void_final callback = Failed e \<and>
      vs void_promise = Pending)"
| "pc_ok vs ts (W_107 (Untyped callback promise) e) = False"
| "pc_ok vs ts pc = True"

text \<open>
  The promises of an executed wrapper hold the outcome of its callback; those of a queued
  wrapper are pending.
\<close>

definition inv_cells :: "'v state \<Rightarrow> bool" where
  "inv_cells s =
     ((\<forall>t \<in> set (executed s). settled (void_states s) (typed_states s) t) \<and>
      (\<forall>t \<in> set (callbacks s). unsettled (void_states s) (typed_states s) t) \<and>
      (\<forall>pc \<in> set (threads s). pc_ok (void_states s) (typed_states s) pc))"

text \<open>
  What a client inside a member function remembers: the queue copy of \<^verbatim>\<open>Stop\<close> was
  pushed; the futures \<^verbatim>\<open>WaitAll\<close> has gone past are ready. Registered futures are
  allocated.
\<close>

fun client_ok :: "'v task list \<Rightarrow> nat \<Rightarrow> (nat \<Rightarrow> unit shared_state) \<Rightarrow> 'v client_pc \<Rightarrow> bool" where
  "client_ok ps n vs Idle = True"
| "client_ok ps n vs (In_Stop q) = (set q \<subseteq> set ps)"
| "client_ok ps n vs (In_WaitAll snapshot rest) =
     (length rest \<le> length snapshot \<and>
      rest = drop (length snapshot - length rest) snapshot \<and>
      (\<forall>h \<in> set (take (length snapshot - length rest) snapshot). ready (vs h)) \<and>
      (\<forall>h \<in> set snapshot. h < n))"

definition inv_clients :: "'v state \<Rightarrow> bool" where
  "inv_clients s =
     ((\<forall>pc \<in> set (clients s). client_ok (posted s) (fresh s) (void_states s) pc) \<and>
      (\<forall>h \<in> set (pending_futures s). h < fresh s))"

text \<open>
  While a client is inside \<^verbatim>\<open>Stop\<close> the flag stays cleared and the thread stays
  joinable, and no second client is inside \<^verbatim>\<open>Stop\<close>.
\<close>

definition inv_in_stop :: "'v state \<Rightarrow> bool" where
  "inv_in_stop s =
     (status s \<noteq> Terminated \<longrightarrow>
       (\<forall>c < length (clients s). \<forall>q. clients s ! c = In_Stop q \<longrightarrow>
          \<not> running s \<and> worker_thread s \<noteq> None \<and>
          (\<forall>d < length (clients s). \<forall>r. clients s ! d = In_Stop r \<longrightarrow> d = c)))"

definition inv :: "'v state \<Rightarrow> bool" where
  "inv s = (inv_hist s \<and> inv_threads s \<and> inv_ids s \<and> inv_cells s \<and> inv_clients s)"

section \<open>The invariants hold in every reachable state\<close>

lemma inv_init: "inv (init n)"
  by (simp add: inv_def inv_hist_def inv_threads_def inv_ids_def inv_cells_def
      inv_clients_def init_def in_flight_def)

lemma untyped_wrapper_unsettled:
  "void_states s p = Pending \<Longrightarrow>
   untyped_wrapper cb p s = Inr (s\<lparr>void_states := (void_states s)(p := void_final cb)\<rparr>)"
  by (cases cb)
    (simp_all add: untyped_wrapper_def try_catch_def void_set_value_def void_set_exception_def)

lemma typed_102_unsettled:
  "typed_states s p = Pending \<Longrightarrow>
   typed_102 w cb p s =
     Inr (case cb of Returns v \<Rightarrow> W_103 w | Throws e \<Rightarrow> W_107 w e,
          s\<lparr>typed_states := (typed_states s)(p := final cb)\<rparr>)"
  by (cases cb)
    (simp_all add: typed_102_def typed_106_def typed_set_value_def typed_set_exception_def)

lemma typed_103_unsettled:
  "void_states s vp = Pending \<Longrightarrow>
   typed_103 w p vp s = Inr (W_inner, s\<lparr>void_states := (void_states s)(vp := Fulfilled ())\<rparr>)"
  by (simp add: typed_103_def void_set_value_def)

lemma typed_107_unsettled:
  "void_states s vp = Pending \<Longrightarrow>
   typed_107 vp e s = Inr (W_inner, s\<lparr>void_states := (void_states s)(vp := Failed e)\<rparr>)"
  by (simp add: typed_107_def void_set_exception_def)


lemmas inv_defs = inv_def inv_hist_def inv_threads_def inv_ids_def inv_cells_def
  inv_clients_def

lemma inv_spawn:
  assumes "inv s" "\<not> running s" "worker_thread s = None"
  shows "inv (s\<lparr>running := True, threads := threads s @ [W_wait],
             worker_thread := Some (length (threads s))\<rparr>)"
proof -
  let ?s = "s\<lparr>running := True, threads := threads s @ [W_wait],
             worker_thread := Some (length (threads s))\<rparr>"
  have "inv_hist ?s" using assms by (simp add: inv_def inv_hist_def in_flight_def)
  moreover have "inv_threads ?s" using assms
    by (auto simp: inv_def inv_threads_def nth_append less_Suc_eq)
  moreover have "inv_ids ?s" using assms by (simp add: inv_def inv_ids_def)
  moreover have "inv_cells ?s" using assms by (simp add: inv_def inv_cells_def in_flight_def)
  moreover have "inv_clients ?s" using assms by (simp add: inv_def inv_clients_def)
  ultimately show ?thesis by (simp add: inv_def)
qed


lemma inv_abort:
  assumes "inv s"
  shows "inv (s\<lparr>running := True, threads := threads s @ [W_wait], status := Terminated\<rparr>)"
proof -
  let ?s = "s\<lparr>running := True, threads := threads s @ [W_wait], status := Terminated\<rparr>"
  have "inv_hist ?s" using assms by (simp add: inv_def inv_hist_def in_flight_def)
  moreover have "inv_threads ?s" by (simp add: inv_threads_def)
  moreover have "inv_ids ?s" using assms by (simp add: inv_def inv_ids_def)
  moreover have "inv_cells ?s" using assms by (simp add: inv_def inv_cells_def in_flight_def)
  moreover have "inv_clients ?s" using assms by (simp add: inv_def inv_clients_def)
  ultimately show ?thesis by (simp add: inv_def)
qed

lemma StartUnlocked_Running: "running s \<Longrightarrow> StartUnlocked s = s"
  by (simp add: StartUnlocked_def)

lemma StartUnlocked_Spawn:
  "\<not> running s \<Longrightarrow> worker_thread s = None \<Longrightarrow>
   StartUnlocked s = s\<lparr>running := True, threads := threads s @ [W_wait],
     worker_thread := Some (length (threads s))\<rparr>"
  by (simp add: StartUnlocked_def)

lemma StartUnlocked_Abort:
  "\<not> running s \<Longrightarrow> worker_thread s = Some t \<Longrightarrow>
   StartUnlocked s = s\<lparr>running := True, threads := threads s @ [W_wait],
     status := Terminated\<rparr>"
  by (simp add: StartUnlocked_def)

lemma inv_StartUnlocked: "inv s \<Longrightarrow> inv (StartUnlocked s)"
proof (cases "running s")
  case True
  then show "inv s \<Longrightarrow> inv (StartUnlocked s)" by (simp add: StartUnlocked_Running)
next
  case False
  assume i: "inv s"
  show "inv (StartUnlocked s)"
  proof (cases "worker_thread s")
    case None
    show ?thesis
      unfolding StartUnlocked_Spawn [OF False None] by (rule inv_spawn [OF i False None])
  next
    case (Some t)
    show ?thesis
      unfolding StartUnlocked_Abort [OF False Some] by (rule inv_abort [OF i])
  qed
qed

lemma StartUnlocked_frame:
  "callbacks (StartUnlocked s) = callbacks s"
  "pending_futures (StartUnlocked s) = pending_futures s"
  "void_states (StartUnlocked s) = void_states s"
  "typed_states (StartUnlocked s) = typed_states s"
  "fresh (StartUnlocked s) = fresh s"
  "clients (StartUnlocked s) = clients s"
  "posted (StartUnlocked s) = posted s"
  "executed (StartUnlocked s) = executed s"
  by (simp_all add: StartUnlocked_def Let_def split: option.split)

lemma StartUnlocked_running:
  "status (StartUnlocked s) \<noteq> Terminated \<Longrightarrow> running (StartUnlocked s)"
  by (simp add: StartUnlocked_def Let_def split: option.splits if_splits)

lemma settled_upd_void:
  "p \<notin> set (ids t) \<Longrightarrow> settled (vs(p := x)) ts t = settled vs ts t"
  by (cases t) auto

lemma settled_upd_typed:
  "p \<notin> set (ids t) \<Longrightarrow> settled vs (ts(p := x)) t = settled vs ts t"
  by (cases t) auto

lemma unsettled_upd_void:
  "p \<notin> set (ids t) \<Longrightarrow> unsettled (vs(p := x)) ts t = unsettled vs ts t"
  by (cases t) auto

lemma unsettled_upd_typed:
  "p \<notin> set (ids t) \<Longrightarrow> unsettled vs (ts(p := x)) t = unsettled vs ts t"
  by (cases t) auto

lemma pc_ok_upd_void:
  "\<forall>w \<in> set (in_call pc). p \<notin> set (ids w) \<Longrightarrow> pc_ok (vs(p := x)) ts pc = pc_ok vs ts pc"
  by (cases pc; cases "hd (in_call pc)") auto

lemma pc_ok_upd_typed:
  "\<forall>w \<in> set (in_call pc). p \<notin> set (ids w) \<Longrightarrow> pc_ok vs (ts(p := x)) pc = pc_ok vs ts pc"
  by (cases pc; cases "hd (in_call pc)") auto

lemma in_call_in_flight:
  "pc \<in> set (threads s) \<Longrightarrow> w \<in> set (in_call pc) \<Longrightarrow> w \<in> set (in_flight s)"
  by (auto simp: in_flight_def)

lemma client_ok_alloc:
  "client_ok ps n vs pc \<Longrightarrow> client_ok ps (Suc n) (vs(n := x)) pc"
  by (cases pc) (auto dest: in_set_takeD)

lemma client_ok_fresh:
  "client_ok ps n vs pc \<Longrightarrow> client_ok ps (Suc n) vs pc"
  by (cases pc) auto

lemma ids_fresh:
  assumes "inv_ids s" "inv_hist s" "t \<in> set (executed s) \<or> t \<in> set (in_flight s) \<or> t \<in> set (callbacks s)"
  shows "fresh s \<notin> set (ids t)"
proof -
  from assms have "t \<in> set (posted s)" by (auto simp: inv_hist_def)
  with assms(1) have "\<forall>i \<in> set (ids t). i < fresh s" by (auto simp: inv_ids_def)
  then show ?thesis by auto
qed

lemma inv_alloc_void:
  assumes "inv s"
  shows "inv (s\<lparr>void_states := (void_states s)(fresh s := x), fresh := Suc (fresh s)\<rparr>)"
proof -
  let ?s = "s\<lparr>void_states := (void_states s)(fresh s := x), fresh := Suc (fresh s)\<rparr>"
  have h: "inv_hist s" and i: "inv_ids s" using assms by (simp_all add: inv_def)
  have "inv_hist ?s" using assms by (simp add: inv_def inv_hist_def in_flight_def)
  moreover have "inv_threads ?s" using assms by (simp add: inv_def inv_threads_def)
  moreover have "inv_ids ?s" using assms by (auto simp: inv_def inv_ids_def less_Suc_eq)
  moreover have "inv_cells ?s" using assms ids_fresh [OF i h]
    by (simp add: inv_def inv_cells_def settled_upd_void unsettled_upd_void pc_ok_upd_void
        in_call_in_flight)
  moreover have "inv_clients ?s" using assms
    by (auto simp: inv_def inv_clients_def less_Suc_eq intro: client_ok_alloc)
  ultimately show ?thesis by (simp add: inv_def)
qed

lemma inv_alloc_typed:
  assumes "inv s"
  shows "inv (s\<lparr>typed_states := (typed_states s)(fresh s := x), fresh := Suc (fresh s)\<rparr>)"
proof -
  let ?s = "s\<lparr>typed_states := (typed_states s)(fresh s := x), fresh := Suc (fresh s)\<rparr>"
  have h: "inv_hist s" and i: "inv_ids s" using assms by (simp_all add: inv_def)
  have "inv_hist ?s" using assms by (simp add: inv_def inv_hist_def in_flight_def)
  moreover have "inv_threads ?s" using assms by (simp add: inv_def inv_threads_def)
  moreover have "inv_ids ?s" using assms by (auto simp: inv_def inv_ids_def less_Suc_eq)
  moreover have "inv_cells ?s" using assms ids_fresh [OF i h]
    by (simp add: inv_def inv_cells_def settled_upd_typed unsettled_upd_typed pc_ok_upd_typed
        in_call_in_flight)
  moreover have "inv_clients ?s" using assms
    by (auto simp: inv_def inv_clients_def less_Suc_eq intro: client_ok_fresh)
  ultimately show ?thesis by (simp add: inv_def)
qed


lemma client_ok_posted:
  "client_ok ps n vs pc \<Longrightarrow> client_ok (ps @ [t]) n vs pc"
  by (cases pc) auto

lemma invD:
  assumes "inv s"
  shows "inv_hist s" "inv_threads s" "inv_ids s" "inv_cells s" "inv_clients s"
  using assms by (simp_all add: inv_def)

lemma inv_push:
  assumes "inv s" and "running s"
    and new: "\<forall>i \<in> set (ids t). i < fresh s \<and> i \<notin> set (concat (map ids (posted s)))"
    and "distinct (ids t)"
    and "unsettled (void_states s) (typed_states s) t"
    and "h < fresh s"
  shows "inv (s\<lparr>pending_futures := pending_futures s @ [h],
             callbacks := callbacks s @ [t], posted := posted s @ [t]\<rparr>)"
proof -
  let ?s = "s\<lparr>pending_futures := pending_futures s @ [h],
             callbacks := callbacks s @ [t], posted := posted s @ [t]\<rparr>"
  note i = invD [OF assms(1)]
  have "inv_hist ?s" using i(1) by (simp add: inv_hist_def in_flight_def)
  moreover have "inv_threads ?s" using i(2) assms(2) by (auto simp: inv_threads_def)
  moreover have "inv_ids ?s" using i(3) assms(3,4) by (auto simp: inv_ids_def)
  moreover have "inv_cells ?s" using i(4) assms(5) by (auto simp: inv_cells_def in_flight_def)
  moreover have "inv_clients ?s" using i(5) assms(6)
    by (auto simp: inv_clients_def intro: client_ok_posted)
  ultimately show ?thesis by (simp add: inv_def)
qed

lemma inv_Post:
  assumes "inv s"
  shows "inv (snd (Post cb s))"
proof -
  define s1 where "s1 = s\<lparr>void_states := (void_states s)(fresh s := Pending), fresh := Suc (fresh s)\<rparr>"
  define s2 where "s2 = (if \<not> running s1 then StartUnlocked s1 else s1)"
  let ?t = "Untyped cb (fresh s) :: 'a task"
  have P: "snd (Post cb s) =
      (if status s2 = Terminated then s2
       else s2\<lparr>pending_futures := pending_futures s2 @ [fresh s],
               callbacks := callbacks s2 @ [?t], posted := posted s2 @ [?t]\<rparr>)"
    by (simp add: Post_def s1_def s2_def Let_def)
  have i1: "inv s1" unfolding s1_def by (rule inv_alloc_void [OF assms])
  have i2: "inv s2" unfolding s2_def using i1 by (simp add: inv_StartUnlocked)
  have f: "posted s2 = posted s" "fresh s2 = Suc (fresh s)" "void_states s2 (fresh s) = Pending"
    "typed_states s2 = typed_states s"
    by (simp_all add: s2_def StartUnlocked_frame, simp_all add: s1_def)
  show ?thesis
  proof (cases "status s2 = Terminated")
    case True
    with P i2 show ?thesis by simp
  next
    case False
    then have r: "running s2" by (auto simp: s2_def StartUnlocked_running)
    have old: "\<forall>i \<in> set (concat (map ids (posted s))). i < fresh s"
      using assms by (simp add: inv_def inv_ids_def)
    have "inv (s2\<lparr>pending_futures := pending_futures s2 @ [fresh s],
               callbacks := callbacks s2 @ [?t], posted := posted s2 @ [?t]\<rparr>)"
    proof (rule inv_push [OF i2 r])
      show "\<forall>i \<in> set (ids ?t). i < fresh s2 \<and> i \<notin> set (concat (map ids (posted s2)))"
        using old f by auto
    qed (simp_all add: f)
    with P False show ?thesis by simp
  qed
qed

lemma inv_Post_typed:
  assumes "inv s"
  shows "inv (snd (Post_typed cb s))"
proof -
  define s1 where "s1 = s\<lparr>typed_states := (typed_states s)(fresh s := Pending), fresh := Suc (fresh s)\<rparr>"
  define s2 where "s2 = (if \<not> running s1 then StartUnlocked s1 else s1)"
  define s3 where "s3 = s2\<lparr>void_states := (void_states s2)(fresh s2 := Pending), fresh := Suc (fresh s2)\<rparr>"
  define t where "t = Typed cb (fresh s) (fresh s2)"
  have f: "posted s2 = posted s" "fresh s2 = Suc (fresh s)" "typed_states s2 (fresh s) = Pending"
    by (simp_all add: s2_def StartUnlocked_frame, simp_all add: s1_def)
  have P: "snd (Post_typed cb s) =
      (if status s2 = Terminated then s2
       else s3\<lparr>pending_futures := pending_futures s3 @ [fresh s2],
               callbacks := callbacks s3 @ [t], posted := posted s3 @ [t]\<rparr>)"
    by (simp add: Post_typed_def s1_def s2_def s3_def t_def Let_def)
  have i1: "inv s1" unfolding s1_def by (rule inv_alloc_typed [OF assms])
  have i2: "inv s2" unfolding s2_def using i1 by (simp add: inv_StartUnlocked)
  have i3: "inv s3" unfolding s3_def by (rule inv_alloc_void [OF i2])
  have g: "posted s3 = posted s" "fresh s3 = Suc (Suc (fresh s))"
    "typed_states s3 (fresh s) = Pending" "void_states s3 (Suc (fresh s)) = Pending"
    "running s3 = running s2"
    using f by (simp_all add: s3_def)
  show ?thesis
  proof (cases "status s2 = Terminated")
    case True
    with P i2 show ?thesis by simp
  next
    case False
    then have r: "running s3" by (auto simp: g s2_def StartUnlocked_running)
    have old: "\<forall>i \<in> set (concat (map ids (posted s))). i < fresh s"
      using assms by (simp add: inv_def inv_ids_def)
    have "inv (s3\<lparr>pending_futures := pending_futures s3 @ [fresh s2],
               callbacks := callbacks s3 @ [t], posted := posted s3 @ [t]\<rparr>)"
    proof (rule inv_push [OF i3 r])
      show "\<forall>i \<in> set (ids t). i < fresh s3 \<and> i \<notin> set (concat (map ids (posted s3)))"
        using old g f by (fastforce simp: t_def)
    qed (simp_all add: g f t_def)
    with P False show ?thesis by simp
  qed
qed


lemma inv_clients_update:
  assumes "inv_clients s" "client_ok (posted s) (fresh s) (void_states s) pc"
  shows "inv_clients (s\<lparr>clients := (clients s)[c := pc]\<rparr>)"
proof -
  have "set ((clients s)[c := pc]) \<subseteq> insert pc (set (clients s))"
    by (rule set_update_subset_insert)
  with assms show ?thesis by (auto simp: inv_clients_def)
qed

lemma inv_status:
  assumes "inv s" "status s \<noteq> Terminated"
  shows "inv (s\<lparr>status := st\<rparr>)"
proof -
  note i = invD [OF assms(1)]
  have "inv_hist (s\<lparr>status := st\<rparr>)" using i(1) by (simp add: inv_hist_def in_flight_def)
  moreover have "inv_threads (s\<lparr>status := st\<rparr>)" using i(2) assms(2) by (simp add: inv_threads_def)
  moreover have "inv_ids (s\<lparr>status := st\<rparr>)" using i(3) by (simp add: inv_ids_def)
  moreover have "inv_cells (s\<lparr>status := st\<rparr>)" using i(4) by (simp add: inv_cells_def in_flight_def)
  moreover have "inv_clients (s\<lparr>status := st\<rparr>)" using i(5) by (simp add: inv_clients_def)
  ultimately show ?thesis by (simp add: inv_def)
qed

lemma inv_flag_cleared:
  assumes "inv s"
  shows "inv (s\<lparr>running := False\<rparr>)"
proof -
  let ?s = "s\<lparr>running := False\<rparr>"
  note i = invD [OF assms(1)]
  have "inv_hist ?s" using i(1) by (simp add: inv_hist_def in_flight_def)
  moreover have "inv_threads ?s" using i(2) by (auto simp: inv_threads_def)
  moreover have "inv_ids ?s" using i(3) by (simp add: inv_ids_def)
  moreover have "inv_cells ?s" using i(4) by (simp add: inv_cells_def)
  moreover have "inv_clients ?s" using i(5) by (simp add: inv_clients_def)
  ultimately show ?thesis by (simp add: inv_def)
qed

lemma inv_stop_flag:
  assumes "inv s" "status s \<noteq> Terminated" "running s" "c < length (clients s)"
  shows "inv (s\<lparr>running := False, clients := (clients s)[c := In_Stop (callbacks s)]\<rparr>)"
proof -
  let ?s = "s\<lparr>running := False, clients := (clients s)[c := In_Stop (callbacks s)]\<rparr>"
  note i = invD [OF assms(1)]
  have "inv_hist ?s" using i(1) by (simp add: inv_hist_def in_flight_def)
  moreover have "inv_threads ?s" using i(2) assms(2,3) by (auto simp: inv_threads_def)
  moreover have "inv_ids ?s" using i(3) by (simp add: inv_ids_def)
  moreover have "inv_cells ?s" using i(4) by (simp add: inv_cells_def in_flight_def)
  moreover have "inv_clients ?s"
  proof -
    have "inv_clients (s\<lparr>running := False\<rparr>)" using i(5) by (simp add: inv_clients_def)
    moreover have "set (callbacks s) \<subseteq> set (posted s)" using i(1) by (auto simp: inv_hist_def)
    ultimately show ?thesis using inv_clients_update [of "s\<lparr>running := False\<rparr>" "In_Stop (callbacks s)" c]
      by simp
  qed
  ultimately show ?thesis by (simp add: inv_def)
qed

lemma inv_Stop_enter:
  assumes "inv s" "exec (Stop_enter c) s = Some s'"
  shows "inv s'"
proof -
  from assms(2) have g: "status s = Live" "c < length (clients s)"
    by (simp_all add: idle_def split: if_splits)
  show ?thesis
  proof (cases "running s")
    case False
    with assms(2) have "s' = s" by (simp add: Stop_locked_def split: if_splits)
    with assms(1) show ?thesis by simp
  next
    case True
    with assms(2) have "s' = s\<lparr>running := False, clients := (clients s)[c := In_Stop (callbacks s)]\<rparr>"
      by (auto simp: Stop_locked_def set_client_def split: if_splits)
    with inv_stop_flag [OF assms(1) _ True g(2)] g(1) show ?thesis by simp
  qed
qed

lemma inv_Destructor:
  assumes "inv s" "exec (Destructor c) s = Some s'"
  shows "inv s'"
proof -
  from assms(2) have g: "status s = Live" "c < length (clients s)"
    by (simp_all add: idle_def split: if_splits)
  show ?thesis
  proof (cases "running s")
    case False
    with assms(2) have "s' = s\<lparr>status := Destroyed\<rparr> \<or> s' = s\<lparr>status := Terminated\<rparr>"
      by (auto simp: Stop_locked_def destroy_members_def split: if_splits option.splits)
    with inv_status [OF assms(1)] g(1) show ?thesis by auto
  next
    case True
    let ?s = "s\<lparr>running := False, clients := (clients s)[c := In_Stop (callbacks s)]\<rparr>"
    from True assms(2) have "s' = ?s\<lparr>status := Destructing\<rparr>"
      by (auto simp: Stop_locked_def set_client_def split: if_splits)
    moreover have "inv ?s" using inv_stop_flag [OF assms(1) _ True g(2)] g(1) by simp
    moreover have "status ?s \<noteq> Terminated" using g(1) by simp
    ultimately show ?thesis using inv_status by blast
  qed
qed


lemma inv_joined:
  assumes "inv s" "status s \<noteq> Terminated"
    and "worker_thread s = Some t" "threads s ! t = W_exited"
  shows "inv (s\<lparr>worker_thread := None, clients := (clients s)[c := Idle]\<rparr>)"
proof -
  let ?s = "s\<lparr>worker_thread := None, clients := (clients s)[c := Idle]\<rparr>"
  note i = invD [OF assms(1)]
  have "inv_hist ?s" using i(1) by (simp add: inv_hist_def in_flight_def)
  moreover have "inv_threads ?s" using i(2) assms(2,3,4)
    by (auto simp: inv_threads_def in_set_conv_nth)
  moreover have "inv_ids ?s" using i(3) by (simp add: inv_ids_def)
  moreover have "inv_cells ?s" using i(4) by (simp add: inv_cells_def in_flight_def)
  moreover have "inv_clients ?s"
  proof -
    have "inv_clients (s\<lparr>worker_thread := None\<rparr>)" using i(5) by (simp add: inv_clients_def)
    then show ?thesis using inv_clients_update [of "s\<lparr>worker_thread := None\<rparr>" Idle c] by simp
  qed
  ultimately show ?thesis by (simp add: inv_def)
qed

lemma inv_unstop:
  assumes "inv s" "worker_thread s = None"
  shows "inv (s\<lparr>clients := (clients s)[c := Idle]\<rparr>)"
proof -
  let ?s = "s\<lparr>clients := (clients s)[c := Idle]\<rparr>"
  note i = invD [OF assms(1)]
  have "inv_hist ?s" using i(1) by (simp add: inv_hist_def in_flight_def)
  moreover have "inv_threads ?s" using i(2) by (simp add: inv_threads_def)
  moreover have "inv_ids ?s" using i(3) by (simp add: inv_ids_def)
  moreover have "inv_cells ?s" using i(4) by (simp add: inv_cells_def in_flight_def)
  moreover have "inv_clients ?s" using inv_clients_update [OF i(5), of Idle c] by simp
  ultimately show ?thesis by (simp add: inv_def)
qed

lemma inv_destroy_members:
  assumes "inv s" "status s \<noteq> Terminated"
  shows "inv (destroy_members s)"
  using inv_status [OF assms] by (simp add: destroy_members_def split: option.split)

lemma inv_Stop_return:
  assumes "inv s" "exec (Stop_return c) s = Some s'"
  shows "inv s'"
proof -
  from assms(2) have st: "status s \<noteq> Terminated"
    by (auto split: if_splits)
  from assms(2) obtain s1 where j: "Stop_join s = Some s1"
    and s': "s' = (if status s1 = Destructing then destroy_members (set_client c Idle s1)
                  else set_client c Idle s1)"
    by (auto split: if_splits client_pc.splits option.splits)
  have "inv (set_client c Idle s1) \<and> status (set_client c Idle s1) \<noteq> Terminated"
  proof (cases "worker_thread s")
    case None
    with j have "s1 = s" by (simp add: Stop_join_def)
    with inv_unstop [OF assms(1) None, of c] st show ?thesis by (simp add: set_client_def)
  next
    case (Some t)
    with j have e: "threads s ! t = W_exited" and "s1 = s\<lparr>worker_thread := None\<rparr>"
      by (auto simp: Stop_join_def split: if_splits)
    with inv_joined [OF assms(1) st Some e, of c] st show ?thesis by (simp add: set_client_def)
  qed
  with s' show ?thesis by (simp add: inv_destroy_members)
qed


lemma inv_client_pc:
  assumes "inv s" "c < length (clients s)"
    and "client_ok (posted s) (fresh s) (void_states s) pc"
  shows "inv (set_client c pc s)"
proof -
  let ?s = "s\<lparr>clients := (clients s)[c := pc]\<rparr>"
  note i = invD [OF assms(1)]
  have "inv_hist ?s" using i(1) by (simp add: inv_hist_def in_flight_def)
  moreover have "inv_threads ?s" using i(2) by (simp add: inv_threads_def)
  moreover have "inv_ids ?s" using i(3) by (simp add: inv_ids_def)
  moreover have "inv_cells ?s" using i(4) by (simp add: inv_cells_def in_flight_def)
  moreover have "inv_clients ?s" by (rule inv_clients_update [OF i(5) assms(3)])
  ultimately show ?thesis by (simp add: inv_def set_client_def)
qed

lemma inv_registry_cleared:
  assumes "inv s"
  shows "inv (s\<lparr>pending_futures := []\<rparr>)"
proof -
  let ?s = "s\<lparr>pending_futures := []\<rparr>"
  note i = invD [OF assms(1)]
  have "inv_hist ?s" using i(1) by (simp add: inv_hist_def in_flight_def)
  moreover have "inv_threads ?s" using i(2) by (simp add: inv_threads_def)
  moreover have "inv_ids ?s" using i(3) by (simp add: inv_ids_def)
  moreover have "inv_cells ?s" using i(4) by (simp add: inv_cells_def in_flight_def)
  moreover have "inv_clients ?s" using i(5) by (simp add: inv_clients_def)
  ultimately show ?thesis by (simp add: inv_def)
qed

lemma inv_WaitAll_enter:
  assumes "inv s" "exec (WaitAll_enter c) s = Some s'"
  shows "inv s'"
proof -
  let ?s = "s\<lparr>pending_futures := []\<rparr>"
  from assms(2) have g: "c < length (clients s)" "clients s ! c = Idle"
    and s': "s' = set_client c (In_WaitAll (pending_futures s) (pending_futures s)) ?s"
    by (auto simp: idle_def WaitAll_locked_def split: if_splits)
  have "\<forall>h \<in> set (pending_futures s). h < fresh s"
    using invD(5) [OF assms(1)] by (simp add: inv_clients_def)
  then have "client_ok (posted ?s) (fresh ?s) (void_states ?s)
      (In_WaitAll (pending_futures s) (pending_futures s))"
    by simp
  with inv_registry_cleared [OF assms(1)] g show ?thesis
    unfolding s' by (intro inv_client_pc) simp_all
qed

lemma client_ok_wait:
  assumes "client_ok ps n vs (In_WaitAll snapshot (future # rest))" "ready (vs future)"
  shows "client_ok ps n vs (In_WaitAll snapshot rest)"
proof -
  define k where "k = length snapshot - Suc (length rest)"
  from assms(1) have le: "Suc (length rest) \<le> length snapshot"
    and d: "future # rest = drop k snapshot"
    and r: "\<forall>h \<in> set (take k snapshot). ready (vs h)"
    and b: "\<forall>h \<in> set snapshot. h < n"
    by (simp_all add: k_def)
  from le have k: "k < length snapshot" "length snapshot - length rest = Suc k"
    by (simp_all add: k_def)
  from d k(1) have n: "snapshot ! k = future" "rest = drop (Suc k) snapshot"
    by (simp_all add: Cons_nth_drop_Suc [symmetric])
  have "take (Suc k) snapshot = take k snapshot @ [future]"
    using k(1) n(1) by (simp add: take_Suc_conv_app_nth)
  with r assms(2) have "\<forall>h \<in> set (take (Suc k) snapshot). ready (vs h)" by simp
  with le n(2) b k(2) show ?thesis by simp
qed

lemma inv_WaitAll_wait:
  assumes "inv s" "exec (WaitAll_wait c) s = Some s'"
  shows "inv s'"
proof -
  from assms(2) obtain snapshot future rest where g: "c < length (clients s)"
      "clients s ! c = In_WaitAll snapshot (future # rest)" "ready (void_states s future)"
    and s': "s' = set_client c (In_WaitAll snapshot rest) s"
    by (auto split: if_splits client_pc.splits list.splits)
  from g(1,2) have "In_WaitAll snapshot (future # rest) \<in> set (clients s)"
    by (metis nth_mem)
  with invD(5) [OF assms(1)]
  have "client_ok (posted s) (fresh s) (void_states s) (In_WaitAll snapshot (future # rest))"
    unfolding inv_clients_def by blast
  then have "client_ok (posted s) (fresh s) (void_states s) (In_WaitAll snapshot rest)"
    using g(3) by (rule client_ok_wait)
  with assms(1) g show ?thesis unfolding s' by (intro inv_client_pc) simp_all
qed

lemma inv_WaitAll_return:
  assumes "inv s" "exec (WaitAll_return c) s = Some s'"
  shows "inv s'"
proof -
  from assms(2) obtain snapshot where g: "c < length (clients s)"
      "clients s ! c = In_WaitAll snapshot []"
    and s': "s' = set_client c Idle s"
    by (auto split: if_splits client_pc.splits list.splits)
  with assms(1) show ?thesis unfolding s' by (intro inv_client_pc) simp_all
qed

lemma inv_Call_Start:
  assumes "inv s" "exec (Call_Start c) s = Some s'"
  shows "inv s'"
  using assms by (auto simp: Start_def inv_StartUnlocked split: if_splits)

lemma inv_Call_Post:
  assumes "inv s" "exec (Call_Post c cb) s = Some s'"
  shows "inv s'"
  using assms by (auto simp: inv_Post split: if_splits)

lemma inv_Call_Post_typed:
  assumes "inv s" "exec (Call_Post_typed c cb) s = Some s'"
  shows "inv s'"
  using assms by (auto simp: inv_Post_typed split: if_splits)


lemma in_call_exited: "\<forall>pc \<in> set ts. pc = W_exited \<Longrightarrow> concat (map in_call ts) = []"
  by (induction ts) auto

lemma in_call_update:
  assumes "t < length ts" "\<forall>u < length ts. u \<noteq> t \<longrightarrow> ts ! u = W_exited"
  shows "concat (map in_call (ts[t := pc])) = in_call pc"
proof -
  have a: "\<forall>x \<in> set (take t ts). x = W_exited"
    using assms by (auto simp: in_set_conv_nth)
  have b: "\<forall>x \<in> set (drop (Suc t) ts). x = W_exited"
    using assms by (auto simp: in_set_conv_nth)
  have "ts[t := pc] = take t ts @ pc # drop (Suc t) ts"
    using assms(1) by (rule upd_conv_take_nth_drop)
  then show ?thesis by (simp add: in_call_exited [OF a] in_call_exited [OF b])
qed

lemma in_call_single:
  assumes "t < length ts" "\<forall>u < length ts. u \<noteq> t \<longrightarrow> ts ! u = W_exited"
  shows "concat (map in_call ts) = in_call (ts ! t)"
  using in_call_update [OF assms, of "ts ! t"] by simp

lemma worker_is_joinable:
  assumes "inv_threads s" "status s \<noteq> Terminated" "t < length (threads s)"
    "threads s ! t \<noteq> W_exited"
  shows "worker_thread s = Some t"
proof (cases "worker_thread s")
  case None
  with assms(1,2) have "\<forall>pc \<in> set (threads s). pc = W_exited" by (simp add: inv_threads_def)
  with assms(3,4) show ?thesis by (metis nth_mem)
next
  case (Some u)
  with assms(1,2) have "\<forall>v < length (threads s). v \<noteq> u \<longrightarrow> threads s ! v = W_exited"
    by (simp add: inv_threads_def)
  with assms(3,4) Some show ?thesis by auto
qed

lemma worker_others:
  assumes "inv_threads s" "status s \<noteq> Terminated" "worker_thread s = Some t"
  shows "t < length (threads s)"
    "\<forall>u < length (threads s). u \<noteq> t \<longrightarrow> threads s ! u = W_exited"
  using assms by (simp_all add: inv_threads_def)

lemma pc_ok_threads:
  assumes "t < length ths" "\<forall>u < length ths. u \<noteq> t \<longrightarrow> ths ! u = W_exited" "pc_ok vs ts pc"
  shows "\<forall>x \<in> set (ths[t := pc]). pc_ok vs ts x"
proof
  fix x
  assume "x \<in> set (ths[t := pc])"
  then obtain u where u: "u < length ths" "x = ths[t := pc] ! u"
    by (auto simp: in_set_conv_nth)
  show "pc_ok vs ts x"
  proof (cases "u = t")
    case True
    with u assms(1,3) show ?thesis by simp
  next
    case False
    with u assms(2) have "x = W_exited" by simp
    then show ?thesis by simp
  qed
qed

lemma thread_pc_ok:
  assumes "inv s" "t < length (threads s)"
  shows "pc_ok (void_states s) (typed_states s) (threads s ! t)"
  using invD(4) [OF assms(1)] assms(2) by (simp add: inv_cells_def)

lemma inv_set_pc:
  assumes "inv s" "status s \<noteq> Terminated" "worker_thread s = Some t"
    and "in_call pc = in_call (threads s ! t)"
    and "pc = W_exited \<longrightarrow> \<not> running s \<and> callbacks s = []"
    and "pc_ok (void_states s) (typed_states s) pc"
  shows "inv (set_pc t pc s)"
proof -
  let ?s = "s\<lparr>threads := (threads s)[t := pc]\<rparr>"
  note i = invD [OF assms(1)]
  note w = worker_others [OF i(2) assms(2,3)]
  have f: "in_flight ?s = in_flight s"
    using in_call_update [OF w] in_call_single [OF w] assms(4) by (simp add: in_flight_def)
  have "inv_hist ?s" using i(1) f by (simp add: inv_hist_def)
  moreover have "inv_threads ?s" using w assms(3,5) by (simp add: inv_threads_def)
  moreover have "inv_ids ?s" using i(3) by (simp add: inv_ids_def)
  moreover have "inv_cells ?s" using i(4) pc_ok_threads [OF w assms(6)]
    by (simp add: inv_cells_def)
  moreover have "inv_clients ?s" using i(5) by (simp add: inv_clients_def)
  ultimately show ?thesis by (simp add: inv_def set_pc_def)
qed

lemma inv_pop:
  assumes "inv s" "status s \<noteq> Terminated" "worker_thread s = Some t"
    and "in_call (threads s ! t) = []" "callbacks s = cb # rest"
  shows "inv (set_pc t (W_call cb) (s\<lparr>callbacks := rest\<rparr>))"
proof -
  let ?s = "s\<lparr>callbacks := rest, threads := (threads s)[t := W_call cb]\<rparr>"
  note i = invD [OF assms(1)]
  note w = worker_others [OF i(2) assms(2,3)]
  have f: "in_flight s = []" "in_flight ?s = [cb]"
    using in_call_update [OF w, of "W_call cb"] in_call_single [OF w] assms(4)
    by (simp_all add: in_flight_def)
  have "inv_hist ?s" using i(1) f assms(5) by (simp add: inv_hist_def)
  moreover have "inv_threads ?s" using w assms(3) by (simp add: inv_threads_def)
  moreover have "inv_ids ?s" using i(3) by (simp add: inv_ids_def)
  moreover have "inv_cells ?s"
  proof -
    have "pc_ok (void_states s) (typed_states s) (W_call cb)"
      using i(4) assms(5) by (simp add: inv_cells_def)
    from pc_ok_threads [OF w this] i(4) assms(5) show ?thesis by (simp add: inv_cells_def)
  qed
  moreover have "inv_clients ?s" using i(5) by (simp add: inv_clients_def)
  ultimately show ?thesis by (simp add: inv_def set_pc_def)
qed

lemma inv_inner_loop:
  assumes "inv s" "status s \<noteq> Terminated" "worker_thread s = Some t"
    and "in_call (threads s ! t) = []"
  shows "inv (inner_loop t s)"
proof (cases "callbacks s")
  case Nil
  then show ?thesis using inv_set_pc [OF assms(1,2,3), of W_wait] assms(4)
    by (simp add: inner_loop_def)
next
  case (Cons cb rest)
  then show ?thesis using inv_pop [OF assms Cons] by (simp add: inner_loop_def)
qed


lemma client_ok_ready:
  assumes "client_ok ps n vs pc" "\<forall>h. ready (vs h) \<longrightarrow> ready (vs' h)"
  shows "client_ok ps n vs' pc"
  using assms by (cases pc) auto

lemma ids_disjoint:
  assumes "distinct (concat (map ids (xs @ cb # ys)))" "x \<in> set xs \<or> x \<in> set ys"
  shows "set (ids x) \<inter> set (ids cb) = {}"
  using assms by fastforce

lemma inv_cong:
  assumes "inv s"
    and "callbacks s' = callbacks s" "pending_futures s' = pending_futures s"
    and "worker_thread s' = worker_thread s" "running s' = running s"
    and "void_states s' = void_states s" "typed_states s' = typed_states s"
    and "fresh s' = fresh s" "threads s' = threads s" "clients s' = clients s"
    and "status s' = status s" "posted s' = posted s" "executed s' = executed s"
  shows "inv s'"
proof -
  have "inv s' = inv s"
    unfolding inv_defs in_flight_def assms(2-) ..
  with assms(1) show ?thesis by simp
qed

lemma inv_settle:
  assumes "inv s" "status s \<noteq> Terminated" "worker_thread s = Some t"
    and c: "in_call (threads s ! t) = [cb]"
    and new: "settled vs ts cb"
    and old: "\<forall>x. set (ids x) \<inter> set (ids cb) = {} \<longrightarrow>
        settled vs ts x = settled (void_states s) (typed_states s) x \<and>
        unsettled vs ts x = unsettled (void_states s) (typed_states s) x"
    and mono: "\<forall>h. ready (void_states s h) \<longrightarrow> ready (vs h)"
  shows "inv (s\<lparr>void_states := vs, typed_states := ts, threads := (threads s)[t := W_inner],
             executed := executed s @ [cb]\<rparr>)"
proof -
  let ?s = "s\<lparr>void_states := vs, typed_states := ts, threads := (threads s)[t := W_inner],
             executed := executed s @ [cb]\<rparr>"
  note i = invD [OF assms(1)]
  note w = worker_others [OF i(2) assms(2,3)]
  have f: "in_flight s = [cb]" "in_flight ?s = []"
    using in_call_update [OF w, of W_inner] in_call_single [OF w] c
    by (simp_all add: in_flight_def)
  have p: "posted s = executed s @ cb # callbacks s" using i(1) f by (simp add: inv_hist_def)
  have d: "\<forall>x. x \<in> set (executed s) \<or> x \<in> set (callbacks s) \<longrightarrow>
      set (ids x) \<inter> set (ids cb) = {}"
    using i(3) ids_disjoint [of "executed s" cb "callbacks s"] by (simp add: inv_ids_def p)
  have e: "threads s ! t \<noteq> W_exited" using c by auto
  have k: "\<forall>x \<in> set ((threads s)[t := W_inner]). pc_ok vs ts x"
    by (rule pc_ok_threads [OF w]) simp
  have "inv_hist ?s" using p f by (simp add: inv_hist_def)
  moreover have "inv_threads ?s" using w assms(3) i(2) assms(2) e by (simp add: inv_threads_def)
  moreover have "inv_ids ?s" using i(3) by (simp add: inv_ids_def)
  moreover have "inv_cells ?s" using i(4) k d old new by (simp add: inv_cells_def)
  moreover have "inv_clients ?s" using i(5) client_ok_ready [OF _ mono]
    by (auto simp: inv_clients_def)
  ultimately show ?thesis by (simp add: inv_def)
qed

lemma inv_store:
  assumes "inv s" "status s \<noteq> Terminated" "worker_thread s = Some t"
    and c: "in_call (threads s ! t) = [cb]"
    and new: "in_call pc = [cb]" "pc_ok vs ts pc"
    and old: "\<forall>x. set (ids x) \<inter> set (ids cb) = {} \<longrightarrow>
        settled vs ts x = settled (void_states s) (typed_states s) x \<and>
        unsettled vs ts x = unsettled (void_states s) (typed_states s) x"
    and mono: "\<forall>h. ready (void_states s h) \<longrightarrow> ready (vs h)"
  shows "inv (s\<lparr>void_states := vs, typed_states := ts, threads := (threads s)[t := pc]\<rparr>)"
proof -
  let ?s = "s\<lparr>void_states := vs, typed_states := ts, threads := (threads s)[t := pc]\<rparr>"
  note i = invD [OF assms(1)]
  note w = worker_others [OF i(2) assms(2,3)]
  have f: "in_flight s = [cb]" "in_flight ?s = [cb]"
    using in_call_update [OF w, of pc] in_call_single [OF w] c new(1)
    by (simp_all add: in_flight_def)
  have p: "posted s = executed s @ cb # callbacks s" using i(1) f by (simp add: inv_hist_def)
  have d: "\<forall>x. x \<in> set (executed s) \<or> x \<in> set (callbacks s) \<longrightarrow>
      set (ids x) \<inter> set (ids cb) = {}"
    using i(3) ids_disjoint [of "executed s" cb "callbacks s"] by (simp add: inv_ids_def p)
  have e: "pc \<noteq> W_exited" using new(1) by auto
  have k: "\<forall>x \<in> set ((threads s)[t := pc]). pc_ok vs ts x"
    by (rule pc_ok_threads [OF w new(2)])
  have "inv_hist ?s" using p f by (simp add: inv_hist_def)
  moreover have "inv_threads ?s" using w assms(3) e by (simp add: inv_threads_def)
  moreover have "inv_ids ?s" using i(3) by (simp add: inv_ids_def)
  moreover have "inv_cells ?s" using i(4) k d old by (simp add: inv_cells_def)
  moreover have "inv_clients ?s" using i(5) client_ok_ready [OF _ mono]
    by (auto simp: inv_clients_def)
  ultimately show ?thesis by (simp add: inv_def)
qed

lemma inv_call_Untyped:
  assumes "inv s" "status s \<noteq> Terminated" "worker_thread s = Some t"
    and c: "threads s ! t = W_call (Untyped cb p)"
  shows "void_states s p = Pending"
    "inv (set_pc t W_inner (s\<lparr>void_states := (void_states s)(p := void_final cb),
       executed := executed s @ [Untyped cb p]\<rparr>))"
proof -
  note w = worker_others [OF invD(2) [OF assms(1)] assms(2,3)]
  from thread_pc_ok [OF assms(1) w(1)] c show pend: "void_states s p = Pending" by simp
  let ?vs = "(void_states s)(p := void_final cb)"
  have "inv (s\<lparr>void_states := ?vs, typed_states := typed_states s,
      threads := (threads s)[t := W_inner], executed := executed s @ [Untyped cb p]\<rparr>)"
  proof (rule inv_settle [OF assms(1,2,3)])
    show "in_call (threads s ! t) = [Untyped cb p]" using c by simp
    show "settled ?vs (typed_states s) (Untyped cb p)" by simp
    show "\<forall>x. set (ids x) \<inter> set (ids (Untyped cb p)) = {} \<longrightarrow>
      settled ?vs (typed_states s) x = settled (void_states s) (typed_states s) x \<and>
      unsettled ?vs (typed_states s) x = unsettled (void_states s) (typed_states s) x"
      by (simp add: settled_upd_void unsettled_upd_void)
    show "\<forall>h. ready (void_states s h) \<longrightarrow> ready (?vs h)"
      using pend by auto
  qed
  then show "inv (set_pc t W_inner
      (s\<lparr>void_states := ?vs, executed := executed s @ [Untyped cb p]\<rparr>))"
    by (rule inv_cong) (simp_all add: set_pc_def)
qed

lemma inv_call_Typed:
  assumes "inv s" "status s \<noteq> Terminated" "worker_thread s = Some t"
    and c: "threads s ! t = W_call (Typed cb p vp)"
    and pc: "pc = (case cb of Returns v \<Rightarrow> W_103 (Typed cb p vp)
                   | Throws e \<Rightarrow> W_107 (Typed cb p vp) e)"
  shows "typed_states s p = Pending"
    "inv (set_pc t pc (s\<lparr>typed_states := (typed_states s)(p := final cb)\<rparr>))"
proof -
  note w = worker_others [OF invD(2) [OF assms(1)] assms(2,3)]
  from thread_pc_ok [OF assms(1) w(1)] c
  have pend: "typed_states s p = Pending" and vpend: "void_states s vp = Pending" by simp_all
  show "typed_states s p = Pending" by (rule pend)
  let ?ts = "(typed_states s)(p := final cb)"
  have "inv (s\<lparr>void_states := void_states s, typed_states := ?ts,
      threads := (threads s)[t := pc]\<rparr>)"
  proof (rule inv_store [OF assms(1,2,3)])
    show "in_call (threads s ! t) = [Typed cb p vp]" using c by simp
    show "in_call pc = [Typed cb p vp]" using pc by (cases cb) simp_all
    show "pc_ok (void_states s) ?ts pc" using pc vpend by (cases cb) simp_all
    show "\<forall>x. set (ids x) \<inter> set (ids (Typed cb p vp)) = {} \<longrightarrow>
      settled (void_states s) ?ts x = settled (void_states s) (typed_states s) x \<and>
      unsettled (void_states s) ?ts x = unsettled (void_states s) (typed_states s) x"
      by (simp add: settled_upd_typed unsettled_upd_typed)
  qed simp
  then show "inv (set_pc t pc (s\<lparr>typed_states := ?ts\<rparr>))"
    by (rule inv_cong) (simp_all add: set_pc_def)
qed

lemma inv_second_store:
  assumes "inv s" "status s \<noteq> Terminated" "worker_thread s = Some t"
    and c: "threads s ! t = W_103 (Typed cb p vp) \<and> x = Fulfilled () \<or>
            threads s ! t = W_107 (Typed cb p vp) e \<and> x = Failed e"
  shows "void_states s vp = Pending"
    "inv (set_pc t W_inner (s\<lparr>void_states := (void_states s)(vp := x),
       executed := executed s @ [Typed cb p vp]\<rparr>))"
proof -
  note w = worker_others [OF invD(2) [OF assms(1)] assms(2,3)]
  from thread_pc_ok [OF assms(1) w(1)] c
  have k: "typed_states s p = final cb" "void_final cb = x" "void_states s vp = Pending"
    by auto
  show "void_states s vp = Pending" by (rule k(3))
  let ?vs = "(void_states s)(vp := x)"
  have "inv (s\<lparr>void_states := ?vs, typed_states := typed_states s,
      threads := (threads s)[t := W_inner], executed := executed s @ [Typed cb p vp]\<rparr>)"
  proof (rule inv_settle [OF assms(1,2,3)])
    show "in_call (threads s ! t) = [Typed cb p vp]" using c by auto
    show "settled ?vs (typed_states s) (Typed cb p vp)" using k by simp
    show "\<forall>x'. set (ids x') \<inter> set (ids (Typed cb p vp)) = {} \<longrightarrow>
      settled ?vs (typed_states s) x' = settled (void_states s) (typed_states s) x' \<and>
      unsettled ?vs (typed_states s) x' = unsettled (void_states s) (typed_states s) x'"
      by (simp add: settled_upd_void unsettled_upd_void)
    show "\<forall>h. ready (void_states s h) \<longrightarrow> ready (?vs h)"
      using k(3) by auto
  qed
  then show "inv (set_pc t W_inner
      (s\<lparr>void_states := ?vs, executed := executed s @ [Typed cb p vp]\<rparr>))"
    by (rule inv_cong) (simp_all add: set_pc_def)
qed

text \<open>The step of a thread inside a wrapper, in a state that satisfies the invariants.\<close>

lemma worker_in_wrapper:
  assumes "inv s" "status s = Live \<or> status s = Destructing" "worker_thread s = Some t"
  shows "threads s ! t = W_call (Untyped ucb p) \<Longrightarrow>
      exec (Worker t) s = Some (set_pc t W_inner
        (s\<lparr>void_states := (void_states s)(p := void_final ucb),
           executed := executed s @ [Untyped ucb p]\<rparr>))"
    and "threads s ! t = W_call (Typed cb p vp) \<Longrightarrow>
      exec (Worker t) s = Some (set_pc t
        (case cb of Returns v \<Rightarrow> W_103 (Typed cb p vp) | Throws e \<Rightarrow> W_107 (Typed cb p vp) e)
        (s\<lparr>typed_states := (typed_states s)(p := final cb)\<rparr>))"
    and "threads s ! t = W_103 (Typed cb p vp) \<Longrightarrow>
      exec (Worker t) s = Some (set_pc t W_inner
        (s\<lparr>void_states := (void_states s)(vp := Fulfilled ()),
           executed := executed s @ [Typed cb p vp]\<rparr>))"
    and "threads s ! t = W_107 (Typed cb p vp) e \<Longrightarrow>
      exec (Worker t) s = Some (set_pc t W_inner
        (s\<lparr>void_states := (void_states s)(vp := Failed e),
           executed := executed s @ [Typed cb p vp]\<rparr>))"
proof -
  have st: "status s \<noteq> Terminated" using assms(2) by auto
  note w = worker_others [OF invD(2) [OF assms(1)] st assms(3)]
  {
    assume c: "threads s ! t = W_call (Untyped ucb p)"
    from inv_call_Untyped(1) [OF assms(1) st assms(3) c] 
    show "exec (Worker t) s = Some (set_pc t W_inner
        (s\<lparr>void_states := (void_states s)(p := void_final ucb),
           executed := executed s @ [Untyped ucb p]\<rparr>))"
      using assms(2) w(1) c by (auto simp: WorkerLoop_def untyped_wrapper_unsettled)
  next
    assume c: "threads s ! t = W_call (Typed cb p vp)"
    from inv_call_Typed(1) [OF assms(1) st assms(3) c refl]
    show "exec (Worker t) s = Some (set_pc t
        (case cb of Returns v \<Rightarrow> W_103 (Typed cb p vp) | Throws e \<Rightarrow> W_107 (Typed cb p vp) e)
        (s\<lparr>typed_states := (typed_states s)(p := final cb)\<rparr>))"
      using assms(2) w(1) c
      by (cases cb) (auto simp: WorkerLoop_def typed_102_unsettled)
  next
    assume c: "threads s ! t = W_103 (Typed cb p vp)"
    then have "threads s ! t = W_103 (Typed cb p vp) \<and> Fulfilled () = Fulfilled () \<or>
        threads s ! t = W_107 (Typed cb p vp) e \<and> (Fulfilled () :: unit shared_state) = Failed e"
      by simp
    from inv_second_store(1) [OF assms(1) st assms(3) this]
    show "exec (Worker t) s = Some (set_pc t W_inner
        (s\<lparr>void_states := (void_states s)(vp := Fulfilled ()),
           executed := executed s @ [Typed cb p vp]\<rparr>))"
      using assms(2) w(1) c by (auto simp: WorkerLoop_def typed_103_unsettled)
  next
    assume c: "threads s ! t = W_107 (Typed cb p vp) e"
    then have "threads s ! t = W_103 (Typed cb p vp) \<and> Failed e = Fulfilled () \<or>
        threads s ! t = W_107 (Typed cb p vp) e \<and> (Failed e :: unit shared_state) = Failed e"
      by simp
    from inv_second_store(1) [OF assms(1) st assms(3) this]
    show "exec (Worker t) s = Some (set_pc t W_inner
        (s\<lparr>void_states := (void_states s)(vp := Failed e),
           executed := executed s @ [Typed cb p vp]\<rparr>))"
      using assms(2) w(1) c by (auto simp: WorkerLoop_def typed_107_unsettled)
  }
qed

lemma inv_Worker:
  assumes "inv s" "exec (Worker t) s = Some s'"
  shows "inv s'"
proof -
  from assms(2) have sl: "status s = Live \<or> status s = Destructing"
    and W: "WorkerLoop t s = Some s'"
    by (auto split: if_splits)
  from sl have st: "status s \<noteq> Terminated" by auto
  from W have t: "t < length (threads s)" and ne: "threads s ! t \<noteq> W_exited"
    by (auto simp: WorkerLoop_def split: if_splits)
  note j = worker_is_joinable [OF invD(2) [OF assms(1)] st t ne]
  note k = thread_pc_ok [OF assms(1) t]
  note ww = worker_in_wrapper [OF assms(1) sl j]
  show ?thesis
  proof (cases "threads s ! t")
    case W_wait
    show ?thesis
    proof (cases "\<not> running s \<and> callbacks s = []")
      case True
      with W t W_wait have "s' = set_pc t W_exited s" by (simp add: WorkerLoop_def)
      with inv_set_pc [OF assms(1) st j, of W_exited] True W_wait show ?thesis by simp
    next
      case False
      with W t W_wait have "s' = inner_loop t s"
        by (auto simp: WorkerLoop_def split: if_splits)
      with inv_inner_loop [OF assms(1) st j] W_wait show ?thesis by simp
    qed
  next
    case (W_call w)
    show ?thesis
    proof (cases w)
      case (Untyped cb p)
      with W_call have c: "threads s ! t = W_call (Untyped cb p)" by simp
      from ww(1) [OF c] assms(2) inv_call_Untyped(2) [OF assms(1) st j c]
      show ?thesis by simp
    next
      case (Typed cb p vp)
      with W_call have c: "threads s ! t = W_call (Typed cb p vp)" by simp
      from ww(2) [OF c] assms(2) inv_call_Typed(2) [OF assms(1) st j c refl]
      show ?thesis by simp
    qed
  next
    case (W_103 w)
    show ?thesis
    proof (cases w)
      case (Untyped cb p)
      with W_103 k show ?thesis by simp
    next
      case (Typed cb p vp)
      with W_103 have c: "threads s ! t = W_103 (Typed cb p vp)" by simp
      then have "threads s ! t = W_103 (Typed cb p vp) \<and> Fulfilled () = Fulfilled () \<or>
          threads s ! t = W_107 (Typed cb p vp) undefined \<and>
          (Fulfilled () :: unit shared_state) = Failed undefined"
        by simp
      from ww(3) [OF c] assms(2) inv_second_store(2) [OF assms(1) st j this]
      show ?thesis by simp
    qed
  next
    case (W_107 w e)
    show ?thesis
    proof (cases w)
      case (Untyped cb p)
      with W_107 k show ?thesis by simp
    next
      case (Typed cb p vp)
      with W_107 have c: "threads s ! t = W_107 (Typed cb p vp) e" by simp
      then have "threads s ! t = W_103 (Typed cb p vp) \<and> Failed e = Fulfilled () \<or>
          threads s ! t = W_107 (Typed cb p vp) e \<and> (Failed e :: unit shared_state) = Failed e"
        by simp
      from ww(4) [OF c] assms(2) inv_second_store(2) [OF assms(1) st j this]
      show ?thesis by simp
    qed
  next
    case (W_in_WaitAll w rest)
    with W t show ?thesis by (simp add: WorkerLoop_def)
  next
    case W_inner
    with W t have "s' = inner_loop t s" by (simp add: WorkerLoop_def)
    with inv_inner_loop [OF assms(1) st j] W_inner show ?thesis by simp
  next
    case W_exited
    with ne show ?thesis by simp
  qed
qed

lemma at_pc_Some:
  "at_pc t s = Some pc \<longleftrightarrow>
     (status s = Live \<or> status s = Destructing) \<and> t < length (threads s) \<and> threads s ! t = pc"
  by (auto simp: at_pc_def)

lemma in_callback_iff:
  "in_callback t s \<longleftrightarrow>
     (status s = Live \<or> status s = Destructing) \<and> t < length (threads s) \<and>
     (\<exists>w. threads s ! t = W_call w)"
  by (auto simp: at_pc_def split: worker_pc.splits)

lemma in_callback_joinable:
  assumes "inv s" "in_callback t s"
  shows "status s \<noteq> Terminated" "worker_thread s = Some t"
proof -
  from assms(2) obtain w where g: "status s = Live \<or> status s = Destructing"
    "t < length (threads s)" "threads s ! t = W_call w"
    unfolding in_callback_iff by blast
  from g(1) show st: "status s \<noteq> Terminated" by auto
  from g(3) have "threads s ! t \<noteq> W_exited" by simp
  from worker_is_joinable [OF invD(2) [OF assms(1)] st g(2) this]
  show "worker_thread s = Some t" .
qed

lemma inv_Task_Start:
  assumes "inv s" "exec (Task_Start t) s = Some s'"
  shows "inv s'"
  using assms by (auto simp: Start_def inv_StartUnlocked simp del: in_callback.simps split: if_splits)

lemma inv_Task_Post:
  assumes "inv s" "exec (Task_Post t cb) s = Some s'"
  shows "inv s'"
  using assms by (auto simp: inv_Post simp del: in_callback.simps split: if_splits)

lemma inv_Task_Post_typed:
  assumes "inv s" "exec (Task_Post_typed t cb) s = Some s'"
  shows "inv s'"
  using assms by (auto simp: inv_Post_typed simp del: in_callback.simps split: if_splits)

lemma Task_Stop_effect:
  assumes "inv s" "exec (Task_Stop t) s = Some s'"
  shows "in_callback t s" "s' = (if running s then s\<lparr>running := False\<rparr> else s)"
proof -
  from assms(2) show c: "in_callback t s" by (simp del: in_callback.simps split: if_splits)
  note j = in_callback_joinable [OF assms(1) c]
  from assms(2) c j(2) show "s' = (if running s then s\<lparr>running := False\<rparr> else s)"
    by (simp add: Stop_locked_def del: in_callback.simps split: if_splits)
qed

lemma inv_Task_Stop:
  assumes "inv s" "exec (Task_Stop t) s = Some s'"
  shows "inv s'"
  using Task_Stop_effect(2) [OF assms] inv_flag_cleared [OF assms(1)] assms(1) by simp

lemma Task_WaitAll_effect:
  assumes "inv s"
  shows "exec (Task_WaitAll_enter t) s = Some s' \<Longrightarrow>
      \<exists>w. threads s ! t = W_call w \<and>
        s' = set_pc t (W_in_WaitAll w (pending_futures s)) (s\<lparr>pending_futures := []\<rparr>)"
    and "exec (Task_WaitAll_wait t) s = Some s' \<Longrightarrow>
      \<exists>w future rest. threads s ! t = W_in_WaitAll w (future # rest) \<and>
        ready (void_states s future) \<and> s' = set_pc t (W_in_WaitAll w rest) s"
    and "exec (Task_WaitAll_return t) s = Some s' \<Longrightarrow>
      \<exists>w. threads s ! t = W_in_WaitAll w [] \<and> s' = set_pc t (W_call w) s"
    and "exec (Task_WaitAll_enter t) s = Some s' \<or> exec (Task_WaitAll_wait t) s = Some s' \<or>
      exec (Task_WaitAll_return t) s = Some s' \<Longrightarrow>
      status s \<noteq> Terminated \<and> worker_thread s = Some t \<and> t < length (threads s)"
proof -
  show "exec (Task_WaitAll_enter t) s = Some s' \<Longrightarrow>
      \<exists>w. threads s ! t = W_call w \<and>
        s' = set_pc t (W_in_WaitAll w (pending_futures s)) (s\<lparr>pending_futures := []\<rparr>)"
    by (auto simp: at_pc_Some WaitAll_locked_def split: option.splits worker_pc.splits)
  show "exec (Task_WaitAll_wait t) s = Some s' \<Longrightarrow>
      \<exists>w future rest. threads s ! t = W_in_WaitAll w (future # rest) \<and>
        ready (void_states s future) \<and> s' = set_pc t (W_in_WaitAll w rest) s"
    by (auto simp: at_pc_Some split: option.splits worker_pc.splits list.splits if_splits)
  show "exec (Task_WaitAll_return t) s = Some s' \<Longrightarrow>
      \<exists>w. threads s ! t = W_in_WaitAll w [] \<and> s' = set_pc t (W_call w) s"
    by (auto simp: at_pc_Some split: option.splits worker_pc.splits list.splits)
  assume "exec (Task_WaitAll_enter t) s = Some s' \<or> exec (Task_WaitAll_wait t) s = Some s' \<or>
      exec (Task_WaitAll_return t) s = Some s'"
  then have g: "status s = Live \<or> status s = Destructing" "t < length (threads s)"
    "threads s ! t \<noteq> W_exited"
    by (auto simp: at_pc_Some split: option.splits worker_pc.splits list.splits if_splits)
  from g(1) have st: "status s \<noteq> Terminated" by auto
  from worker_is_joinable [OF invD(2) [OF assms(1)] st g(2,3)] st g(2)
  show "status s \<noteq> Terminated \<and> worker_thread s = Some t \<and> t < length (threads s)" by simp
qed

lemma inv_Task_WaitAll_enter:
  assumes "inv s" "exec (Task_WaitAll_enter t) s = Some s'"
  shows "inv s'"
proof -
  let ?s = "s\<lparr>pending_futures := []\<rparr>"
  from Task_WaitAll_effect(1) [OF assms] obtain w where c: "threads s ! t = W_call w"
    and s': "s' = set_pc t (W_in_WaitAll w (pending_futures s)) ?s" by blast
  from Task_WaitAll_effect(4) [OF assms(1)] assms(2)
  have g: "status s \<noteq> Terminated" "worker_thread s = Some t" "t < length (threads s)"
    by blast+
  from thread_pc_ok [OF assms(1) g(3)] c
  have "pc_ok (void_states ?s) (typed_states ?s) (W_in_WaitAll w (pending_futures s))" by simp
  with inv_registry_cleared [OF assms(1)] g c show ?thesis
    unfolding s' by (intro inv_set_pc) simp_all
qed

lemma inv_Task_WaitAll_wait:
  assumes "inv s" "exec (Task_WaitAll_wait t) s = Some s'"
  shows "inv s'"
proof -
  from Task_WaitAll_effect(2) [OF assms] obtain w future rest
    where c: "threads s ! t = W_in_WaitAll w (future # rest)"
    and s': "s' = set_pc t (W_in_WaitAll w rest) s" by blast
  from Task_WaitAll_effect(4) [OF assms(1)] assms(2)
  have g: "status s \<noteq> Terminated" "worker_thread s = Some t" "t < length (threads s)"
    by blast+
  from thread_pc_ok [OF assms(1) g(3)] c
  have "pc_ok (void_states s) (typed_states s) (W_in_WaitAll w rest)" by simp
  with assms(1) g c show ?thesis
    unfolding s' by (intro inv_set_pc) simp_all
qed

lemma inv_Task_WaitAll_return:
  assumes "inv s" "exec (Task_WaitAll_return t) s = Some s'"
  shows "inv s'"
proof -
  from Task_WaitAll_effect(3) [OF assms] obtain w
    where c: "threads s ! t = W_in_WaitAll w []"
    and s': "s' = set_pc t (W_call w) s" by blast
  from Task_WaitAll_effect(4) [OF assms(1)] assms(2)
  have g: "status s \<noteq> Terminated" "worker_thread s = Some t" "t < length (threads s)"
    by blast+
  from thread_pc_ok [OF assms(1) g(3)] c
  have "pc_ok (void_states s) (typed_states s) (W_call w)" by simp
  with assms(1) g c show ?thesis
    unfolding s' by (intro inv_set_pc) simp_all
qed

lemma inv_exec:
  assumes "inv s" "exec e s = Some s'"
  shows "inv s'"
  using assms
  by (cases e)
    (blast intro: inv_Call_Start inv_Call_Post inv_Call_Post_typed inv_Stop_enter inv_Stop_return
      inv_WaitAll_enter inv_WaitAll_wait inv_WaitAll_return inv_Destructor inv_Worker
      inv_Task_Start inv_Task_Post inv_Task_Post_typed inv_Task_Stop inv_Task_WaitAll_enter
      inv_Task_WaitAll_wait inv_Task_WaitAll_return)+

lemma inv_run: "inv s \<Longrightarrow> run es s = Some s' \<Longrightarrow> inv s'"
proof (induction es arbitrary: s)
  case Nil
  then show ?case by simp
next
  case (Cons e es)
  then show ?case by (auto split: option.splits dest: inv_exec)
qed

lemma reach_inv: "reach s \<Longrightarrow> inv s"
  using inv_run [OF inv_init] by (auto simp: reach_def)

section \<open>Runs\<close>

lemmas eval_defs = init_def idle_def Start_def Post_def Post_typed_def StartUnlocked_def Let_def
  WorkerLoop_def inner_loop_def set_pc_def set_client_def try_catch_def at_pc_def
  untyped_wrapper_def typed_102_def typed_103_def typed_106_def typed_107_def
  void_set_value_def void_set_exception_def typed_set_value_def typed_set_exception_def
  Stop_locked_def Stop_join_def WaitAll_locked_def destroy_members_def

lemma run_append:
  "run (es @ fs) s = (case run es s of None \<Rightarrow> None | Some s' \<Rightarrow> run fs s')"
  by (induction es arbitrary: s) (auto split: option.splits)

lemma reach_exec:
  assumes "reach s" "exec e s = Some s'"
  shows "reach s'"
proof -
  from assms(1) obtain n es where "run es (init n) = Some s" by (auto simp: reach_def)
  with assms(2) have "run (es @ [e]) (init n) = Some s'" by (simp add: run_append)
  then show ?thesis unfolding reach_def by blast
qed

lemma reach_run: "run es (init n) = Some s \<Longrightarrow> reach s"
  unfolding reach_def by blast

lemma distinct_tasks: "distinct (concat (map ids xs)) \<Longrightarrow> distinct xs"
proof (induction xs)
  case Nil
  then show ?case by simp
next
  case (Cons a xs)
  have "ids a \<noteq> []" by (cases a) simp_all
  then obtain i where "i \<in> set (ids a)" by (cases "ids a") auto
  with Cons show ?case by auto
qed

lemma wrapper_step_frame:
  assumes "wrapper_step pc s = Some r" "r = Inl (x, s1) \<or> r = Inr (pc', s1)"
  shows "callbacks s1 = callbacks s \<and> pending_futures s1 = pending_futures s \<and>
    worker_thread s1 = worker_thread s \<and> running s1 = running s \<and> fresh s1 = fresh s \<and>
    threads s1 = threads s \<and> clients s1 = clients s \<and> status s1 = status s \<and>
    posted s1 = posted s \<and> executed s1 = executed s"
  using assms
  by (cases pc; cases "hd (in_call pc)")
    (auto simp: untyped_wrapper_def typed_102_def typed_103_def typed_106_def typed_107_def
      try_catch_def void_set_value_def void_set_exception_def
      typed_set_value_def typed_set_exception_def
      split: outcome.splits sum.splits prod.splits)

lemma wrapper_step_next:
  assumes "wrapper_step pc s = Some (Inr (pc', s1))"
  shows "pc' \<noteq> W_exited"
  using assms
  by (cases pc; cases "hd (in_call pc)")
    (auto simp: untyped_wrapper_def typed_102_def typed_103_def typed_106_def typed_107_def
      try_catch_def void_set_value_def void_set_exception_def
      typed_set_value_def typed_set_exception_def
      split: outcome.splits sum.splits prod.splits)

lemma WorkerLoop_wrapper:
  assumes "t < length (threads s)" "threads s ! t = pc" "pc \<notin> {W_wait, W_inner, W_exited}"
  shows "WorkerLoop t s =
    (case wrapper_step pc s of
       None \<Rightarrow> None
     | Some (Inl (e, s')) \<Rightarrow> Some (s'\<lparr>status := Terminated\<rparr>)
     | Some (Inr (pc', s')) \<Rightarrow>
         if pc' = W_inner
         then Some (set_pc t W_inner (s'\<lparr>executed := executed s' @ in_call pc\<rparr>))
         else Some (set_pc t pc' s'))"
  using assms by (cases pc) (auto simp: WorkerLoop_def)

lemma WorkerLoop_fields:
  assumes "WorkerLoop t s = Some s'"
  shows "(callbacks s' = callbacks s \<or> (\<exists>x. callbacks s = x # callbacks s')) \<and>
    posted s' = posted s \<and> clients s' = clients s \<and> running s' = running s \<and>
    worker_thread s' = worker_thread s \<and> pending_futures s' = pending_futures s \<and>
    fresh s' = fresh s \<and> (status s' = status s \<or> status s' = Terminated)"
proof -
  from assms have t: "t < length (threads s)" by (simp add: WorkerLoop_def split: if_splits)
  have il: "(callbacks (inner_loop t s) = callbacks s \<or>
      (\<exists>x. callbacks s = x # callbacks (inner_loop t s))) \<and> posted (inner_loop t s) = posted s \<and>
    clients (inner_loop t s) = clients s \<and> running (inner_loop t s) = running s \<and>
    worker_thread (inner_loop t s) = worker_thread s \<and>
    pending_futures (inner_loop t s) = pending_futures s \<and>
    fresh (inner_loop t s) = fresh s \<and> status (inner_loop t s) = status s"
    by (cases "callbacks s") (simp_all add: inner_loop_def set_pc_def)
  show ?thesis
  proof (cases "threads s ! t \<in> {W_wait, W_inner, W_exited}")
    case True
    then consider "threads s ! t = W_wait" | "threads s ! t = W_inner" | "threads s ! t = W_exited"
      by auto
    then show ?thesis
    proof cases
      case 1
      with assms t il show ?thesis
        by (auto simp: WorkerLoop_def set_pc_def split: if_splits)
    next
      case 2
      with assms t il show ?thesis by (simp add: WorkerLoop_def)
    next
      case 3
      with assms t show ?thesis by (simp add: WorkerLoop_def)
    qed
  next
    case False
    note W = WorkerLoop_wrapper [OF t refl False]
    show ?thesis
    proof (cases "wrapper_step (threads s ! t) s")
      case None
      with W assms show ?thesis by simp
    next
      case (Some r)
      show ?thesis
      proof (cases r)
        case (Inl p)
        obtain x s1 where p: "p = (x, s1)" by (cases p)
        with Inl wrapper_step_frame [OF Some, of x s1] W Some assms show ?thesis
          by auto
      next
        case (Inr p)
        obtain pc' s1 where p: "p = (pc', s1)" by (cases p)
        with Inr wrapper_step_frame [OF Some, of _ s1 pc'] W Some assms show ?thesis
          by (auto simp: set_pc_def split: if_splits)
      qed
    qed
  qed
qed

lemma StartUnlocked_status:
  "status (StartUnlocked s) = status s \<or> status (StartUnlocked s) = Terminated"
  by (simp add: StartUnlocked_def Let_def split: option.split)

lemma Post_queue:
  "(callbacks (snd (Post cb s)) = callbacks s \<and> posted (snd (Post cb s)) = posted s) \<or>
   (callbacks (snd (Post cb s)) = callbacks s @ [Untyped cb (fresh s)] \<and>
    posted (snd (Post cb s)) = posted s @ [Untyped cb (fresh s)])"
  by (simp add: Post_def Let_def StartUnlocked_frame)

lemma Post_typed_queue:
  "(callbacks (snd (Post_typed cb s)) = callbacks s \<and>
    posted (snd (Post_typed cb s)) = posted s) \<or>
   (callbacks (snd (Post_typed cb s)) = callbacks s @ [Typed cb (fresh s) (Suc (fresh s))] \<and>
    posted (snd (Post_typed cb s)) = posted s @ [Typed cb (fresh s) (Suc (fresh s))])"
  by (simp add: Post_typed_def Let_def StartUnlocked_frame)

lemma WorkerLoop_queue:
  assumes "WorkerLoop t s = Some s'"
  shows "(callbacks s' = callbacks s \<or> (\<exists>x. callbacks s = x # callbacks s')) \<and>
    posted s' = posted s"
  using WorkerLoop_fields [OF assms] by simp

lemma exec_queue:
  assumes "exec e s = Some s'"
  shows "(callbacks s' = callbacks s \<and> posted s' = posted s) \<or>
    (\<exists>x. callbacks s' = callbacks s @ [x] \<and> posted s' = posted s @ [x]) \<or>
    (\<exists>x. callbacks s = x # callbacks s' \<and> posted s' = posted s)"
proof (cases e)
  case (Call_Start c)
  with assms show ?thesis by (auto simp: Start_def StartUnlocked_frame split: if_splits)
next
  case (Call_Post c cb)
  with assms Post_queue [of cb s] show ?thesis by (auto split: if_splits)
next
  case (Call_Post_typed c cb)
  with assms Post_typed_queue [of cb s] show ?thesis by (auto split: if_splits)
next
  case (Stop_enter c)
  with assms show ?thesis
    by (auto simp: Stop_locked_def set_client_def split: if_splits)
next
  case (Stop_return c)
  with assms show ?thesis
    by (auto simp: Stop_join_def set_client_def destroy_members_def
        split: if_splits client_pc.splits option.splits)
next
  case (WaitAll_enter c)
  with assms show ?thesis
    by (auto simp: WaitAll_locked_def set_client_def split: if_splits)
next
  case (WaitAll_wait c)
  with assms show ?thesis
    by (auto simp: set_client_def split: if_splits client_pc.splits list.splits)
next
  case (WaitAll_return c)
  with assms show ?thesis
    by (auto simp: set_client_def split: if_splits client_pc.splits list.splits)
next
  case (Destructor c)
  with assms show ?thesis
    by (auto simp: Stop_locked_def set_client_def destroy_members_def
        split: if_splits option.splits)
next
  case (Worker t)
  with assms WorkerLoop_queue [of t s s'] show ?thesis by (auto split: if_splits)
next
  case (Task_Start t)
  with assms show ?thesis
    by (auto simp: Start_def StartUnlocked_frame simp del: in_callback.simps split: if_splits)
next
  case (Task_Post t cb)
  with assms Post_queue [of cb s] show ?thesis
    by (auto simp del: in_callback.simps split: if_splits)
next
  case (Task_Post_typed t cb)
  with assms Post_typed_queue [of cb s] show ?thesis
    by (auto simp del: in_callback.simps split: if_splits)
next
  case (Task_Stop t)
  with assms show ?thesis
    by (auto simp: Stop_locked_def Stop_join_def simp del: in_callback.simps
        split: if_splits option.splits)
next
  case (Task_WaitAll_enter t)
  with assms show ?thesis
    by (auto simp: WaitAll_locked_def set_pc_def
        split: option.splits worker_pc.splits)
next
  case (Task_WaitAll_wait t)
  with assms show ?thesis
    by (auto simp: set_pc_def split: option.splits worker_pc.splits list.splits if_splits)
next
  case (Task_WaitAll_return t)
  with assms show ?thesis
    by (auto simp: set_pc_def split: option.splits worker_pc.splits list.splits)
qed

section \<open>One client at most is inside Stop\<close>

lemma WorkerLoop_frame:
  assumes "WorkerLoop t s = Some s'"
  shows "clients s' = clients s \<and> running s' = running s \<and>
    worker_thread s' = worker_thread s \<and> pending_futures s' = pending_futures s \<and>
    fresh s' = fresh s \<and> (status s' = status s \<or> status s' = Terminated)"
  using WorkerLoop_fields [OF assms] by simp

lemma in_stop_same:
  assumes "inv_in_stop s" "clients s' = clients s" "running s' = running s"
    "worker_thread s' = worker_thread s" "status s' = status s \<or> status s' = Terminated"
  shows "inv_in_stop s'"
  using assms unfolding inv_in_stop_def by auto

lemma in_stop_none:
  assumes "\<forall>c < length (clients s). \<forall>q. clients s ! c \<noteq> In_Stop q"
  shows "inv_in_stop s"
  using assms unfolding inv_in_stop_def by auto

lemma in_stop_clients:
  assumes "inv_in_stop s" "status s \<noteq> Terminated" "running s \<or> worker_thread s = None"
  shows "\<forall>c < length (clients s). \<forall>q. clients s ! c \<noteq> In_Stop q"
  using assms unfolding inv_in_stop_def by auto

lemma StartUnlocked_control:
  "status (StartUnlocked s) = Terminated \<or>
   (status (StartUnlocked s) = status s \<and> running (StartUnlocked s) \<and>
    (running s \<or> worker_thread s = None))"
  by (simp add: StartUnlocked_def Let_def split: option.split)

lemma Post_control:
  "clients (snd (Post cb s)) = clients s \<and>
   (status (snd (Post cb s)) = Terminated \<or>
    (status (snd (Post cb s)) = status s \<and> running (snd (Post cb s)) \<and>
      (running s \<or> worker_thread s = None)))"
  by (simp add: Post_def StartUnlocked_def Let_def split: option.split)

lemma Post_typed_control:
  "clients (snd (Post_typed cb s)) = clients s \<and>
   (status (snd (Post_typed cb s)) = Terminated \<or>
    (status (snd (Post_typed cb s)) = status s \<and> running (snd (Post_typed cb s)) \<and>
      (running s \<or> worker_thread s = None)))"
  by (simp add: Post_typed_def StartUnlocked_def Let_def split: option.split)

lemma in_stop_rearm:
  assumes "inv_in_stop s" "status s \<noteq> Terminated" "clients s' = clients s"
    and "status s' = Terminated \<or> (status s' = status s \<and> (running s \<or> worker_thread s = None))"
  shows "inv_in_stop s'"
proof (cases "status s' = Terminated")
  case True
  then show ?thesis by (simp add: inv_in_stop_def)
next
  case False
  with assms(4) have "running s \<or> worker_thread s = None" by auto
  from in_stop_clients [OF assms(1,2) this] assms(3) show ?thesis
    by (intro in_stop_none) simp
qed

lemma in_stop_client_pc:
  assumes "inv_in_stop s" "c < length (clients s)" "\<forall>q. clients s ! c \<noteq> In_Stop q"
    "\<forall>q. pc \<noteq> In_Stop q"
  shows "inv_in_stop (set_client c pc s)"
proof -
  have *: "\<And>d q. d < length (clients s) \<Longrightarrow> (clients s)[c := pc] ! d = In_Stop q \<Longrightarrow>
      d \<noteq> c \<and> clients s ! d = In_Stop q"
    using assms(2,4) by (metis nth_list_update)
  show ?thesis
    unfolding inv_in_stop_def set_client_def
  proof (intro impI allI)
    fix d q
    assume st: "status (s\<lparr>clients := (clients s)[c := pc]\<rparr>) \<noteq> Terminated"
      and d: "d < length (clients (s\<lparr>clients := (clients s)[c := pc]\<rparr>))"
      and q: "clients (s\<lparr>clients := (clients s)[c := pc]\<rparr>) ! d = In_Stop q"
    from d q * [of d q] have dq: "d < length (clients s)" "clients s ! d = In_Stop q" by simp_all
    with assms(1) st have a: "\<not> running s" "worker_thread s \<noteq> None"
      "\<forall>d' < length (clients s). \<forall>r. clients s ! d' = In_Stop r \<longrightarrow> d' = d"
      unfolding inv_in_stop_def by auto
    have "\<forall>d' < length (clients s). \<forall>r. (clients s)[c := pc] ! d' = In_Stop r \<longrightarrow> d' = d"
      using a(3) * by auto
    with a(1,2) show "\<not> running (s\<lparr>clients := (clients s)[c := pc]\<rparr>) \<and>
        worker_thread (s\<lparr>clients := (clients s)[c := pc]\<rparr>) \<noteq> None \<and>
        (\<forall>d' < length (clients (s\<lparr>clients := (clients s)[c := pc]\<rparr>)). \<forall>r.
            clients (s\<lparr>clients := (clients s)[c := pc]\<rparr>) ! d' = In_Stop r \<longrightarrow> d' = d)"
      by simp
  qed
qed


lemma in_stop_status:
  assumes "inv_in_stop s" "status s \<noteq> Terminated"
  shows "inv_in_stop (s\<lparr>status := st\<rparr>)"
  using assms unfolding inv_in_stop_def by auto

lemma in_stop_flag:
  assumes "\<forall>d < length (clients s). \<forall>q. clients s ! d \<noteq> In_Stop q" "c < length (clients s)"
    "worker_thread s \<noteq> None"
  shows "inv_in_stop (s\<lparr>running := False, clients := (clients s)[c := In_Stop q]\<rparr>)"
proof -
  have "\<And>d r. d < length (clients s) \<Longrightarrow> (clients s)[c := In_Stop q] ! d = In_Stop r \<Longrightarrow> d = c"
    using assms(1) by (metis nth_list_update_neq)
  with assms(3) show ?thesis unfolding inv_in_stop_def by auto
qed

lemma in_stop_Stop_enter:
  assumes "inv s" "inv_in_stop s" "exec (Stop_enter c) s = Some s'"
  shows "inv_in_stop s'"
proof -
  from assms(3) have g: "status s = Live" "c < length (clients s)"
    by (simp_all add: idle_def split: if_splits)
  show ?thesis
  proof (cases "running s")
    case False
    with assms(3) have "s' = s" by (simp add: Stop_locked_def split: if_splits)
    with assms(2) show ?thesis by simp
  next
    case True
    with assms(3) have s': "s' = s\<lparr>running := False, clients := (clients s)[c := In_Stop (callbacks s)]\<rparr>"
      by (auto simp: Stop_locked_def set_client_def split: if_splits)
    from invD(2) [OF assms(1)] True g(1) have "worker_thread s \<noteq> None"
      by (auto simp: inv_threads_def)
    with in_stop_clients [OF assms(2)] True g show ?thesis
      unfolding s' by (intro in_stop_flag) simp_all
  qed
qed

lemma in_stop_Destructor:
  assumes "inv s" "inv_in_stop s" "exec (Destructor c) s = Some s'"
  shows "inv_in_stop s'"
proof -
  from assms(3) have g: "status s = Live" "c < length (clients s)"
    by (simp_all add: idle_def split: if_splits)
  show ?thesis
  proof (cases "running s")
    case False
    with assms(3) have "s' = s\<lparr>status := Destroyed\<rparr> \<or> s' = s\<lparr>status := Terminated\<rparr>"
      by (auto simp: Stop_locked_def destroy_members_def split: if_splits option.splits)
    with in_stop_status [OF assms(2)] g(1) show ?thesis by auto
  next
    case True
    let ?s = "s\<lparr>running := False, clients := (clients s)[c := In_Stop (callbacks s)]\<rparr>"
    from True assms(3) have s': "s' = ?s\<lparr>status := Destructing\<rparr>"
      by (auto simp: Stop_locked_def set_client_def split: if_splits)
    from invD(2) [OF assms(1)] True g(1) have "worker_thread s \<noteq> None"
      by (auto simp: inv_threads_def)
    with in_stop_clients [OF assms(2)] True g have "inv_in_stop ?s"
      by (intro in_stop_flag) simp_all
    moreover have "status ?s \<noteq> Terminated" using g(1) by simp
    ultimately show ?thesis unfolding s' by (rule in_stop_status)
  qed
qed

lemma Stop_return_clients:
  assumes "exec (Stop_return c) s = Some s'"
  shows "clients s' = (clients s)[c := Idle]" "\<exists>q. clients s ! c = In_Stop q"
    "c < length (clients s)" "status s \<noteq> Terminated" "running s' = running s"
    "worker_thread s' = None"
  using assms
  by (auto simp: Stop_join_def set_client_def destroy_members_def
      split: if_splits client_pc.splits option.splits)

lemma in_stop_Stop_return:
  assumes "inv_in_stop s" "exec (Stop_return c) s = Some s'"
  shows "inv_in_stop s'"
proof -
  note f = Stop_return_clients [OF assms(2)]
  from f(2) obtain q where q: "clients s ! c = In_Stop q" by blast
  with assms(1) f(3,4) have u: "\<forall>d < length (clients s). \<forall>r. clients s ! d = In_Stop r \<longrightarrow> d = c"
    unfolding inv_in_stop_def by auto
  have "\<forall>d < length (clients s'). \<forall>r. clients s' ! d \<noteq> In_Stop r"
  proof (intro allI impI)
    fix d r assume "d < length (clients s')"
    then have d: "d < length (clients s)" by (simp add: f(1))
    show "clients s' ! d \<noteq> In_Stop r"
    proof (cases "d = c")
      case True
      with d show ?thesis by (simp add: f(1))
    next
      case False
      with u d have "clients s ! d \<noteq> In_Stop r" by auto
      with False show ?thesis by (simp add: f(1))
    qed
  qed
  then show ?thesis by (rule in_stop_none)
qed

lemma in_stop_exec:
  assumes "inv s" "inv_in_stop s" "exec e s = Some s'"
  shows "inv_in_stop s'"
proof (cases e)
  case (Call_Start c)
  with assms(3) have s': "s' = StartUnlocked s" and st: "status s \<noteq> Terminated"
    by (auto simp: Start_def idle_def split: if_splits)
  show ?thesis unfolding s' using StartUnlocked_control [of s]
    by (intro in_stop_rearm [OF assms(2) st]) (auto simp: StartUnlocked_frame)
next
  case (Call_Post c cb)
  with assms(3) have s': "s' = snd (Post cb s)" and st: "status s \<noteq> Terminated"
    by (auto simp: idle_def split: if_splits)
  show ?thesis unfolding s' using Post_control [of cb s]
    by (intro in_stop_rearm [OF assms(2) st]) auto
next
  case (Call_Post_typed c cb)
  with assms(3) have s': "s' = snd (Post_typed cb s)" and st: "status s \<noteq> Terminated"
    by (auto simp: idle_def split: if_splits)
  show ?thesis unfolding s' using Post_typed_control [of cb s]
    by (intro in_stop_rearm [OF assms(2) st]) auto
next
  case (Stop_enter c)
  with assms show ?thesis by (simp only: in_stop_Stop_enter)
next
  case (Stop_return c)
  with assms show ?thesis by (simp only: in_stop_Stop_return)
next
  case (WaitAll_enter c)
  with assms(3) have g: "c < length (clients s)" "clients s ! c = Idle"
    and s': "s' = set_client c (In_WaitAll (pending_futures s) (pending_futures s))
        (s\<lparr>pending_futures := []\<rparr>)"
    by (auto simp: idle_def WaitAll_locked_def split: if_splits)
  have "inv_in_stop (s\<lparr>pending_futures := []\<rparr>)"
    using assms(2) by (rule in_stop_same) simp_all
  then show ?thesis unfolding s' using g by (intro in_stop_client_pc) simp_all
next
  case (WaitAll_wait c)
  with assms(3) obtain snapshot future rest where g: "c < length (clients s)"
      "clients s ! c = In_WaitAll snapshot (future # rest)"
    and s': "s' = set_client c (In_WaitAll snapshot rest) s"
    by (auto split: if_splits client_pc.splits list.splits)
  show ?thesis unfolding s' using assms(2) g by (intro in_stop_client_pc) simp_all
next
  case (WaitAll_return c)
  with assms(3) obtain snapshot where g: "c < length (clients s)"
      "clients s ! c = In_WaitAll snapshot []"
    and s': "s' = set_client c Idle s"
    by (auto split: if_splits client_pc.splits list.splits)
  show ?thesis unfolding s' using assms(2) g by (intro in_stop_client_pc) simp_all
next
  case (Destructor c)
  with assms show ?thesis by (simp only: in_stop_Destructor)
next
  case (Worker t)
  with assms(3) have "WorkerLoop t s = Some s'" by (auto split: if_splits)
  from WorkerLoop_frame [OF this] show ?thesis
    by (intro in_stop_same [OF assms(2)]) simp_all
next
  case (Task_Start t)
  with assms(3) have s': "s' = StartUnlocked s" and c: "in_callback t s"
    by (auto simp: Start_def simp del: in_callback.simps split: if_splits)
  note st = in_callback_joinable(1) [OF assms(1) c]
  show ?thesis unfolding s' using StartUnlocked_control [of s]
    by (intro in_stop_rearm [OF assms(2) st]) (auto simp: StartUnlocked_frame)
next
  case (Task_Post t cb)
  with assms(3) have s': "s' = snd (Post cb s)" and c: "in_callback t s"
    by (auto simp del: in_callback.simps split: if_splits)
  note st = in_callback_joinable(1) [OF assms(1) c]
  show ?thesis unfolding s' using Post_control [of cb s]
    by (intro in_stop_rearm [OF assms(2) st]) auto
next
  case (Task_Post_typed t cb)
  with assms(3) have s': "s' = snd (Post_typed cb s)" and c: "in_callback t s"
    by (auto simp del: in_callback.simps split: if_splits)
  note st = in_callback_joinable(1) [OF assms(1) c]
  show ?thesis unfolding s' using Post_typed_control [of cb s]
    by (intro in_stop_rearm [OF assms(2) st]) auto
next
  case (Task_Stop t)
  with assms(3) have "exec (Task_Stop t) s = Some s'" by simp
  from Task_Stop_effect(2) [OF assms(1) this] assms(2) show ?thesis
    by (auto simp: inv_in_stop_def)
next
  case (Task_WaitAll_enter t)
  with assms(3) have "exec (Task_WaitAll_enter t) s = Some s'" by simp
  from Task_WaitAll_effect(1) [OF assms(1) this] show ?thesis
    by (intro in_stop_same [OF assms(2)]) (auto simp: set_pc_def)
next
  case (Task_WaitAll_wait t)
  with assms(3) have "exec (Task_WaitAll_wait t) s = Some s'" by simp
  from Task_WaitAll_effect(2) [OF assms(1) this] show ?thesis
    by (intro in_stop_same [OF assms(2)]) (auto simp: set_pc_def)
next
  case (Task_WaitAll_return t)
  with assms(3) have "exec (Task_WaitAll_return t) s = Some s'" by simp
  from Task_WaitAll_effect(3) [OF assms(1) this] show ?thesis
    by (intro in_stop_same [OF assms(2)]) (auto simp: set_pc_def)
qed

lemma in_stop_run:
  "inv s \<Longrightarrow> inv_in_stop s \<Longrightarrow> run es s = Some s' \<Longrightarrow> inv_in_stop s'"
proof (induction es arbitrary: s)
  case Nil
  then show ?case by simp
next
  case (Cons e es)
  from Cons.prems(3) obtain s1 where e: "exec e s = Some s1" and r: "run es s1 = Some s'"
    by (auto split: option.splits)
  from Cons.IH [OF inv_exec [OF Cons.prems(1) e] in_stop_exec [OF Cons.prems(1,2) e] r]
  show ?case .
qed

lemma reach_in_stop: "reach s \<Longrightarrow> inv_in_stop s"
proof -
  assume "reach s"
  then obtain n es where r: "run es (init n) = Some s" by (auto simp: reach_def)
  have "inv_in_stop (init n :: 'a state)" by (simp add: inv_in_stop_def init_def)
  from in_stop_run [OF inv_init this r] show ?thesis .
qed

section \<open>The claims\<close>

text \<open>
  C3 (FIFO execution order). In every reachable state the wrappers pushed so far are, in
  the order of their pushes, the executed ones, then the one being called, then the queued
  ones: the execution order is the order in which the pushes completed. No wrapper is
  pushed twice. A step leaves the queue as it is, appends one wrapper at its tail, or
  removes its head.
\<close>

theorem fifo_execution_order:
  assumes "reach s"
  shows "posted s = executed s @ in_flight s @ callbacks s \<and>
    prefix (executed s) (posted s) \<and>
    distinct (posted s) \<and>
    (\<forall>e s'. exec e s = Some s' \<longrightarrow>
       (callbacks s' = callbacks s \<and> posted s' = posted s) \<or>
       (\<exists>x. callbacks s' = callbacks s @ [x] \<and> posted s' = posted s @ [x]) \<or>
       (\<exists>x. callbacks s = x # callbacks s' \<and> posted s' = posted s))"
proof -
  note i = invD [OF reach_inv [OF assms]]
  have h: "posted s = executed s @ in_flight s @ callbacks s"
    using i(1) by (simp add: inv_hist_def)
  then have "prefix (executed s) (posted s)" by simp
  moreover have "distinct (posted s)" using i(3) by (simp add: inv_ids_def distinct_tasks)
  ultimately show ?thesis using h exec_queue by blast
qed

theorem fifo_execution_order_witness:
  "\<exists>s. run [Call_Post 0 (Returns ()), Call_Post 0 (Throws (User_exception 1)),
        Worker 0, Worker 0] (init 1 :: nat state) = Some s \<and>
     reach s \<and>
     posted s = [Untyped (Returns ()) 0, Untyped (Throws (User_exception 1)) 1] \<and>
     executed s = [Untyped (Returns ()) 0] \<and>
     in_flight s = [] \<and>
     callbacks s = [Untyped (Throws (User_exception 1)) 1] \<and>
     posted s = executed s @ in_flight s @ callbacks s \<and>
     prefix (executed s) (posted s) \<and> distinct (posted s) \<and>
     (\<exists>s'. exec (Worker 0) s = Some s' \<and> callbacks s' = [] \<and> posted s' = posted s)"
proof -
  have "\<exists>s. run [Call_Post 0 (Returns ()), Call_Post 0 (Throws (User_exception 1)),
        Worker 0, Worker 0] (init 1 :: nat state) = Some s \<and>
     posted s = [Untyped (Returns ()) 0, Untyped (Throws (User_exception 1)) 1] \<and>
     executed s = [Untyped (Returns ()) 0] \<and>
     in_flight s = [] \<and>
     callbacks s = [Untyped (Throws (User_exception 1)) 1] \<and>
     (\<exists>s'. exec (Worker 0) s = Some s' \<and> callbacks s' = [] \<and> posted s' = posted s)"
    by (simp add: eval_defs in_flight_def)
  then obtain s where s: "run [Call_Post 0 (Returns ()), Call_Post 0 (Throws (User_exception 1)),
        Worker 0, Worker 0] (init 1 :: nat state) = Some s"
     "posted s = [Untyped (Returns ()) 0, Untyped (Throws (User_exception 1)) 1]"
     "executed s = [Untyped (Returns ()) 0]"
     "in_flight s = []"
     "callbacks s = [Untyped (Throws (User_exception 1)) 1]"
     "\<exists>s'. exec (Worker 0) s = Some s' \<and> callbacks s' = [] \<and> posted s' = posted s"
    by blast
  have r: "reach s" using s(1) by (rule reach_run)
  from fifo_execution_order [OF r] s r show ?thesis by blast
qed

lemma worker_exit_condition:
  assumes "WorkerLoop t s = Some s'" "t < length (threads s')" "threads s' ! t = W_exited"
  shows "\<not> running s \<and> callbacks s = []"
proof -
  from assms(1) have t: "t < length (threads s)" and ne: "threads s ! t \<noteq> W_exited"
    by (auto simp: WorkerLoop_def split: if_splits)
  have il: "threads (inner_loop t s) ! t \<noteq> W_exited"
    using t by (cases "callbacks s") (simp_all add: inner_loop_def set_pc_def)
  show ?thesis
  proof (cases "threads s ! t \<in> {W_wait, W_inner, W_exited}")
    case True
    then consider "threads s ! t = W_wait" | "threads s ! t = W_inner" | "threads s ! t = W_exited"
      by auto
    then show ?thesis
    proof cases
      case 1
      with assms t il show ?thesis by (auto simp: WorkerLoop_def split: if_splits)
    next
      case 2
      with assms t il show ?thesis by (simp add: WorkerLoop_def)
    next
      case 3
      with ne show ?thesis by simp
    qed
  next
    case False
    note W = WorkerLoop_wrapper [OF t refl False]
    show ?thesis
    proof (cases "wrapper_step (threads s ! t) s")
      case None
      with W assms show ?thesis by simp
    next
      case (Some r)
      show ?thesis
      proof (cases r)
        case (Inl p)
        obtain x s1 where p: "p = (x, s1)" by (cases p)
        with Inl wrapper_step_frame [OF Some, of x s1] W Some assms ne show ?thesis
          by auto
      next
        case (Inr p)
        obtain pc' s1 where p: "p = (pc', s1)" by (cases p)
        from Some Inr p have n: "pc' \<noteq> W_exited" by (auto dest: wrapper_step_next)
        from p Inr wrapper_step_frame [OF Some, of _ s1 pc'] have "threads s1 = threads s"
          by simp
        with p Inr W Some assms t n show ?thesis
          by (auto simp: set_pc_def split: if_splits)
      qed
    qed
  qed
qed

lemma joined_all_executed:
  assumes "inv s" "status s \<noteq> Terminated"
    and "worker_thread s = None \<or> (\<exists>t. worker_thread s = Some t \<and> threads s ! t = W_exited)"
  shows "callbacks s = [] \<and> in_flight s = [] \<and> executed s = posted s \<and> live_workers s = 0"
proof -
  note i = invD [OF assms(1)]
  have e: "\<forall>pc \<in> set (threads s). pc = W_exited"
  proof (cases "worker_thread s")
    case None
    with i(2) assms(2) show ?thesis by (simp add: inv_threads_def)
  next
    case (Some t)
    with assms(3) have x: "threads s ! t = W_exited" by simp
    from i(2) assms(2) Some
    have "\<forall>u < length (threads s). u \<noteq> t \<longrightarrow> threads s ! u = W_exited"
      by (simp add: inv_threads_def)
    with x show ?thesis by (metis in_set_conv_nth)
  qed
  have c: "callbacks s = []"
    using i(2) assms(2,3) by (auto simp: inv_threads_def)
  have f: "in_flight s = []" unfolding in_flight_def by (rule in_call_exited [OF e])
  have l: "live_workers s = 0" using e by (auto simp: live_workers_def filter_empty_conv)
  from i(1) c f l show ?thesis by (simp add: inv_hist_def)
qed

text \<open>
  C1 (graceful drain on stop). A worker thread leaves \<^verbatim>\<open>WorkerLoop\<close> only from
  a state where the flag is cleared and the queue is empty. A \<^verbatim>\<open>Stop\<close> that has
  cleared the flag returns only when the joinable thread has finished, and then every
  wrapper that was queued when it cleared the flag has been executed; the queue is empty
  and no call is in progress.
\<close>

theorem graceful_drain:
  assumes "reach s"
  shows "(\<forall>t s'. exec (Worker t) s = Some s' \<longrightarrow> t < length (threads s') \<longrightarrow>
            threads s' ! t = W_exited \<longrightarrow> \<not> running s \<and> callbacks s = []) \<and>
    (\<forall>c q s'. c < length (clients s) \<longrightarrow> clients s ! c = In_Stop q \<longrightarrow>
            exec (Stop_return c) s = Some s' \<longrightarrow>
       (\<exists>t. worker_thread s = Some t \<and> threads s ! t = W_exited) \<and>
       set q \<subseteq> set (executed s') \<and> callbacks s' = [] \<and> in_flight s' = [] \<and>
       clients s' ! c = Idle \<and> worker_thread s' = None)"
proof (intro conjI allI impI)
  fix t s'
  assume "exec (Worker t) s = Some s'" "t < length (threads s')" "threads s' ! t = W_exited"
  then have "WorkerLoop t s = Some s'" "t < length (threads s')" "threads s' ! t = W_exited"
    by (auto split: if_splits)
  then have "\<not> running s \<and> callbacks s = []" by (rule worker_exit_condition)
  then show "\<not> running s" "callbacks s = []" by simp_all
next
  fix c q s'
  assume c: "c < length (clients s)" "clients s ! c = In_Stop q"
    and e: "exec (Stop_return c) s = Some s'"
  note i = reach_inv [OF assms]
  note f = Stop_return_clients [OF e]
  from reach_in_stop [OF assms] c f(4) have w: "worker_thread s \<noteq> None"
    by (auto simp: inv_in_stop_def)
  from e c w show x: "\<exists>t. worker_thread s = Some t \<and> threads s ! t = W_exited"
    by (auto simp: Stop_join_def split: if_splits option.splits)
  from joined_all_executed [OF i f(4)] x
  have d: "callbacks s = []" "in_flight s = []" "executed s = posted s" by auto
  from invD(5) [OF i] c have "client_ok (posted s) (fresh s) (void_states s) (In_Stop q)"
    unfolding inv_clients_def by (metis nth_mem)
  then have "set q \<subseteq> set (executed s)" using d by simp
  moreover from e c have "executed s' = executed s" "callbacks s' = callbacks s"
    "in_flight s' = in_flight s"
    by (auto simp: Stop_join_def set_client_def destroy_members_def in_flight_def
        split: if_splits option.splits)
  ultimately show "set q \<subseteq> set (executed s')" "callbacks s' = []" "in_flight s' = []"
    using d by simp_all
  show "clients s' ! c = Idle" using f(1) c by simp
  show "worker_thread s' = None" by (rule f(6))
qed

lemmas eval_more = in_flight_def live_workers_def

theorem graceful_drain_witness:
  "\<exists>s s'. run [Call_Post 0 (Returns ()), Call_Post 0 (Returns ()), Stop_enter 0,
        Worker 0, Worker 0, Worker 0, Worker 0, Worker 0, Worker 0] (init 1 :: nat state) = Some s \<and>
     reach s \<and> clients s ! 0 = In_Stop [Untyped (Returns ()) 0, Untyped (Returns ()) 1] \<and>
     exec (Stop_return 0) s = Some s' \<and>
     worker_thread s = Some 0 \<and> threads s ! 0 = W_exited \<and>
     set [Untyped (Returns ()) 0, Untyped (Returns ()) 1] \<subseteq> set (executed s') \<and>
     callbacks s' = [] \<and> clients s' ! 0 = Idle \<and> worker_thread s' = None"
proof -
  have "\<exists>s s'. run [Call_Post 0 (Returns ()), Call_Post 0 (Returns ()), Stop_enter 0,
        Worker 0, Worker 0, Worker 0, Worker 0, Worker 0, Worker 0] (init 1 :: nat state) = Some s \<and>
     0 < length (clients s) \<and>
     clients s ! 0 = In_Stop [Untyped (Returns ()) 0, Untyped (Returns ()) 1] \<and>
     exec (Stop_return 0) s = Some s' \<and> worker_thread s = Some 0 \<and> threads s ! 0 = W_exited"
    by (simp add: eval_defs)
  then obtain s s' where s: "run [Call_Post 0 (Returns ()), Call_Post 0 (Returns ()), Stop_enter 0,
        Worker 0, Worker 0, Worker 0, Worker 0, Worker 0, Worker 0] (init 1 :: nat state) = Some s"
     "0 < length (clients s)"
     "clients s ! 0 = In_Stop [Untyped (Returns ()) 0, Untyped (Returns ()) 1]"
     "exec (Stop_return 0) s = Some s'" "worker_thread s = Some 0" "threads s ! 0 = W_exited"
    by blast
  have r: "reach s" using s(1) by (rule reach_run)
  from graceful_drain [OF r] s(2,3,4)
  have "set [Untyped (Returns ()) 0, Untyped (Returns ()) 1] \<subseteq> set (executed s') \<and>
     callbacks s' = [] \<and> clients s' ! 0 = Idle \<and> worker_thread s' = None"
    by blast
  with s r show ?thesis by blast
qed




lemma stopped_after_Stop:
  assumes "reach s" "exec (Stop_return c) s = Some s'"
  shows "\<not> running s' \<and> worker_thread s' = None"
proof -
  note f = Stop_return_clients [OF assms(2)]
  from f(2) obtain q where "clients s ! c = In_Stop q" by blast
  with reach_in_stop [OF assms(1)] f(3,4) have "\<not> running s" by (auto simp: inv_in_stop_def)
  with f(5,6) show ?thesis by simp
qed



lemma Stop_enter_stopped:
  assumes "\<not> running s" "idle c s"
  shows "exec (Stop_enter c) s = Some s"
  using assms by (simp add: Stop_locked_def)

lemma Stop_twice:
  assumes "reach s" "exec (Stop_return c) s = Some s'" "status s' = Live"
  shows "exec (Stop_enter c) s' = Some s'"
proof -
  note f = Stop_return_clients [OF assms(2)]
  from stopped_after_Stop [OF assms(1,2)] have "\<not> running s'" by simp
  moreover have "idle c s'" using f(1,3) assms(3) by (simp add: idle_def)
  ultimately show ?thesis by (rule Stop_enter_stopped)
qed

text \<open>
  C10 (\<^verbatim>\<open>Stop\<close> on a stopped executor). With the flag cleared, the critical section of
  \<^verbatim>\<open>Stop\<close> returns at once and the whole call is a step that changes nothing: no
  member, no thread and no client changes, and the client is not left waiting for a join.
  A \<^verbatim>\<open>Stop\<close> that follows a \<^verbatim>\<open>Stop\<close> that has returned is such a call.
\<close>

theorem stop_when_stopped:
  "(\<not> running s \<longrightarrow> Stop_locked s = (True, s)) \<and>
   (\<not> running s \<longrightarrow> idle c s \<longrightarrow> exec (Stop_enter c) s = Some s) \<and>
   (reach s \<longrightarrow> (\<forall>s'. exec (Stop_return c) s = Some s' \<longrightarrow> status s' = Live \<longrightarrow>
      \<not> running s' \<and> exec (Stop_enter c) s' = Some s'))"
  using Stop_enter_stopped [of s c] Stop_twice [of s c] stopped_after_Stop [of s c]
  by (simp add: Stop_locked_def)

theorem stop_when_stopped_witness:
  "\<exists>s s'. run [Call_Post 0 (Returns ()), Stop_enter 0, Worker 0, Worker 0, Worker 0, Worker 0]
        (init 1 :: nat state) = Some s \<and>
     reach s \<and> exec (Stop_return 0) s = Some s' \<and> status s' = Live \<and> \<not> running s' \<and>
     idle 0 s' \<and> Stop_locked s' = (True, s') \<and> exec (Stop_enter 0) s' = Some s'"
proof -
  have "\<exists>s s'. run [Call_Post 0 (Returns ()), Stop_enter 0, Worker 0, Worker 0, Worker 0, Worker 0]
        (init 1 :: nat state) = Some s \<and>
     exec (Stop_return 0) s = Some s' \<and> status s' = Live \<and> idle 0 s'"
    by (simp add: eval_defs)
  then obtain s s' where s:
    "run [Call_Post 0 (Returns ()), Stop_enter 0, Worker 0, Worker 0, Worker 0, Worker 0]
        (init 1 :: nat state) = Some s"
    "exec (Stop_return 0) s = Some s'" "status s' = Live" "idle 0 s'"
    by blast
  have r: "reach s" using s(1) by (rule reach_run)
  note twice = stop_when_stopped [of s 0, THEN conjunct2, THEN conjunct2, rule_format, OF r s(2,3)]
  then have a: "\<not> running s'" "exec (Stop_enter 0) s' = Some s'" by simp_all
  note once = stop_when_stopped [of s' 0, THEN conjunct1, rule_format, OF a(1)]
  note call = stop_when_stopped [of s' 0, THEN conjunct2, THEN conjunct1, rule_format, OF a(1) s(4)]
  from s r a once call show ?thesis by blast
qed

lemma reach_steps:
  assumes "reach s" "run es s = Some s'"
  shows "reach s'"
proof -
  from assms(1) obtain n fs where "run fs (init n) = Some s" by (auto simp: reach_def)
  with assms(2) have "run (fs @ es) (init n) = Some s'" by (simp add: run_append)
  then show ?thesis unfolding reach_def by blast
qed

lemma filter_live_exited: "\<forall>pc \<in> set ts. pc = W_exited \<Longrightarrow> filter live ts = []"
  by (induction ts) auto

lemma single_worker_unless_terminated:
  assumes "reach s" "status s \<noteq> Terminated"
  shows "live_workers s \<le> 1"
proof (cases "worker_thread s")
  case None
  with invD(2) [OF reach_inv [OF assms(1)]] assms(2)
  have "\<forall>pc \<in> set (threads s). pc = W_exited" by (simp add: inv_threads_def)
  then show ?thesis by (simp add: live_workers_def filter_live_exited)
next
  case (Some t)
  note w = worker_others [OF invD(2) [OF reach_inv [OF assms(1)]] assms(2) Some]
  have a: "\<forall>x \<in> set (take t (threads s)). x = W_exited"
    using w by (auto simp: in_set_conv_nth)
  have b: "\<forall>x \<in> set (drop (Suc t) (threads s)). x = W_exited"
    using w by (auto simp: in_set_conv_nth)
  have "threads s = take t (threads s) @ threads s ! t # drop (Suc t) (threads s)"
    using w(1) by (rule id_take_nth_drop)
  then have "filter live (threads s) =
      filter live (take t (threads s) @ threads s ! t # drop (Suc t) (threads s))"
    by simp
  then have "length (filter live (threads s)) \<le> 1"
    by (simp add: filter_live_exited [OF a] filter_live_exited [OF b])
  then show ?thesis by (simp add: live_workers_def)
qed

text \<open>
  C8 (single worker). A \<^verbatim>\<open>Post\<close> that runs after \<^verbatim>\<open>Stop\<close> has cleared the flag and
  before it has joined the worker: client 0 starts the executor and enters \<^verbatim>\<open>Stop\<close>,
  client 1 posts. \<^verbatim>\<open>StartUnlocked\<close> starts a second worker thread while the first is
  live, and the process terminates at the assignment to the joinable
  \<^verbatim>\<open>worker_thread_\<close>; the wrapper is never queued.
\<close>

theorem post_during_stop_two_workers:
  "run [Call_Start 0, Stop_enter 0, Call_Post 1 (Returns ())] (init 2 :: nat state) \<noteq> None \<and>
   live_workers (the (run [Call_Start 0, Stop_enter 0, Call_Post 1 (Returns ())]
     (init 2 :: nat state))) = 2 \<and>
   threads (the (run [Call_Start 0, Stop_enter 0, Call_Post 1 (Returns ())]
     (init 2 :: nat state))) = [W_wait, W_wait] \<and>
   status (the (run [Call_Start 0, Stop_enter 0, Call_Post 1 (Returns ())]
     (init 2 :: nat state))) = Terminated \<and>
   worker_thread (the (run [Call_Start 0, Stop_enter 0, Call_Post 1 (Returns ())]
     (init 2 :: nat state))) = Some 0 \<and>
   callbacks (the (run [Call_Start 0, Stop_enter 0, Call_Post 1 (Returns ())]
     (init 2 :: nat state))) = [] \<and>
   status (the (run [Call_Start 0, Stop_enter 0] (init 2 :: nat state))) = Live \<and>
   live_workers (the (run [Call_Start 0, Stop_enter 0] (init 2 :: nat state))) = 1"
  by (simp add: eval_defs eval_more numeral_2_eq_2)

lemma exec_destroyed:
  assumes "exec e s = Some s'" "status s' = Destroyed"
  shows "worker_thread s' = None"
proof (cases e)
  case (Call_Start c)
  with assms StartUnlocked_status [of s] show ?thesis
    by (auto simp: Start_def idle_def split: if_splits)
next
  case (Call_Post c cb)
  with assms Post_control [of cb s] show ?thesis by (auto simp: idle_def split: if_splits)
next
  case (Call_Post_typed c cb)
  with assms Post_typed_control [of cb s] show ?thesis by (auto simp: idle_def split: if_splits)
next
  case (Stop_enter c)
  with assms show ?thesis
    by (auto simp: idle_def Stop_locked_def set_client_def split: if_splits)
next
  case (Stop_return c)
  with assms show ?thesis
    by (auto simp: Stop_join_def set_client_def destroy_members_def
        split: if_splits client_pc.splits option.splits)
next
  case (WaitAll_enter c)
  with assms show ?thesis
    by (auto simp: idle_def WaitAll_locked_def set_client_def split: if_splits)
next
  case (WaitAll_wait c)
  with assms show ?thesis
    by (auto simp: set_client_def split: if_splits client_pc.splits list.splits)
next
  case (WaitAll_return c)
  with assms show ?thesis
    by (auto simp: set_client_def split: if_splits client_pc.splits list.splits)
next
  case (Destructor c)
  with assms show ?thesis
    by (auto simp: idle_def Stop_locked_def set_client_def destroy_members_def
        split: if_splits option.splits)
next
  case (Worker t)
  with assms(1) have "WorkerLoop t s = Some s'" "status s = Live \<or> status s = Destructing"
    by (auto split: if_splits)
  with WorkerLoop_frame [of t s s'] assms(2) show ?thesis by auto
next
  case (Task_Start t)
  with assms StartUnlocked_status [of s] show ?thesis
    by (auto simp: Start_def in_callback_iff simp del: in_callback.simps split: if_splits)
next
  case (Task_Post t cb)
  with assms Post_control [of cb s] show ?thesis
    by (auto simp: in_callback_iff simp del: in_callback.simps split: if_splits)
next
  case (Task_Post_typed t cb)
  with assms Post_typed_control [of cb s] show ?thesis
    by (auto simp: in_callback_iff simp del: in_callback.simps split: if_splits)
next
  case (Task_Stop t)
  with assms show ?thesis
    by (auto simp: in_callback_iff Stop_locked_def Stop_join_def simp del: in_callback.simps
        split: if_splits option.splits)
next
  case (Task_WaitAll_enter t)
  with assms show ?thesis
    by (auto simp: at_pc_Some WaitAll_locked_def set_pc_def
        split: option.splits worker_pc.splits)
next
  case (Task_WaitAll_wait t)
  with assms show ?thesis
    by (auto simp: at_pc_Some set_pc_def
        split: option.splits worker_pc.splits list.splits if_splits)
next
  case (Task_WaitAll_return t)
  with assms show ?thesis
    by (auto simp: at_pc_Some set_pc_def split: option.splits worker_pc.splits list.splits)
qed

lemma run_destroyed:
  "run es s = Some s' \<Longrightarrow> status s = Destroyed \<longrightarrow> worker_thread s = None \<Longrightarrow>
   status s' = Destroyed \<longrightarrow> worker_thread s' = None"
proof (induction es arbitrary: s)
  case Nil
  then show ?case by simp
next
  case (Cons e es)
  from Cons.prems(1) obtain s1 where e: "exec e s = Some s1" and r: "run es s1 = Some s'"
    by (auto split: option.splits)
  have "status s1 = Destroyed \<longrightarrow> worker_thread s1 = None"
    using exec_destroyed [OF e] by simp
  from Cons.IH [OF r this] show ?case .
qed

lemma reach_destroyed:
  assumes "reach s" "status s = Destroyed"
  shows "worker_thread s = None"
proof -
  from assms(1) obtain n es where r: "run es (init n) = Some s" by (auto simp: reach_def)
  have "status (init n :: 'a state) = Destroyed \<longrightarrow> worker_thread (init n :: 'a state) = None"
    by (simp add: init_def)
  from run_destroyed [OF r this] assms(2) show ?thesis by simp
qed

text \<open>
  When the destructor has returned, the thread has been joined and every wrapper ever
  pushed has been executed.
\<close>

lemma destroyed_all_executed:
  assumes "reach s" "status s = Destroyed"
  shows "worker_thread s = None \<and> live_workers s = 0 \<and> callbacks s = [] \<and>
    in_flight s = [] \<and> executed s = posted s"
  using joined_all_executed [OF reach_inv [OF assms(1)]] reach_destroyed [OF assms] assms(2)
  by simp

text \<open>
  C9 (the destructor). The destructor runs \<^verbatim>\<open>Stop\<close>, which clears the flag and waits in
  the join while the worker drains the queue. Two wrappers are queued when client 0
  destroys the executor; the callback of the first one posts to its own executor. That
  \<^verbatim>\<open>Post\<close> finds the flag cleared and calls \<^verbatim>\<open>StartUnlocked\<close>, which assigns a new
  thread to the joinable \<^verbatim>\<open>worker_thread_\<close>: the process terminates with the second
  wrapper still queued, neither wrapper executed, and no further step of the worker or of
  the destructor.
\<close>

theorem destructor_task_posts_terminates:
  "run [Call_Post 0 (Returns ()), Call_Post 0 (Returns ()), Destructor 0, Worker 0]
     (init 1 :: nat state) \<noteq> None \<and>
   status (the (run [Call_Post 0 (Returns ()), Call_Post 0 (Returns ()), Destructor 0,
     Worker 0] (init 1 :: nat state))) = Destructing \<and>
   clients (the (run [Call_Post 0 (Returns ()), Call_Post 0 (Returns ()), Destructor 0,
     Worker 0] (init 1 :: nat state))) =
     [In_Stop [Untyped (Returns ()) 0, Untyped (Returns ()) 1]] \<and>
   threads (the (run [Call_Post 0 (Returns ()), Call_Post 0 (Returns ()), Destructor 0,
     Worker 0] (init 1 :: nat state))) = [W_call (Untyped (Returns ()) 0)] \<and>
   run [Call_Post 0 (Returns ()), Call_Post 0 (Returns ()), Destructor 0, Worker 0,
     Task_Post 0 (Returns ())] (init 1 :: nat state) \<noteq> None \<and>
   status (the (run [Call_Post 0 (Returns ()), Call_Post 0 (Returns ()), Destructor 0,
     Worker 0, Task_Post 0 (Returns ())] (init 1 :: nat state))) = Terminated \<and>
   callbacks (the (run [Call_Post 0 (Returns ()), Call_Post 0 (Returns ()), Destructor 0,
     Worker 0, Task_Post 0 (Returns ())] (init 1 :: nat state))) = [Untyped (Returns ()) 1] \<and>
   executed (the (run [Call_Post 0 (Returns ()), Call_Post 0 (Returns ()), Destructor 0,
     Worker 0, Task_Post 0 (Returns ())] (init 1 :: nat state))) = [] \<and>
   worker_thread (the (run [Call_Post 0 (Returns ()), Call_Post 0 (Returns ()), Destructor 0,
     Worker 0, Task_Post 0 (Returns ())] (init 1 :: nat state))) = Some 0 \<and>
   live_workers (the (run [Call_Post 0 (Returns ()), Call_Post 0 (Returns ()), Destructor 0,
     Worker 0, Task_Post 0 (Returns ())] (init 1 :: nat state))) = 2 \<and>
   exec (Worker 0) (the (run [Call_Post 0 (Returns ()), Call_Post 0 (Returns ()),
     Destructor 0, Worker 0, Task_Post 0 (Returns ())] (init 1 :: nat state))) = None \<and>
   exec (Stop_return 0) (the (run [Call_Post 0 (Returns ()), Call_Post 0 (Returns ()),
     Destructor 0, Worker 0, Task_Post 0 (Returns ())] (init 1 :: nat state))) = None"
  by (simp add: eval_defs eval_more list_all_iff)

lemma Post_effect:
  assumes "status (snd (Post cb s)) \<noteq> Terminated"
  shows "fst (Post cb s) = No_state"
    "callbacks (snd (Post cb s)) = callbacks s @ [Untyped cb (fresh s)]"
    "pending_futures (snd (Post cb s)) = pending_futures s @ [fresh s]"
    "void_states (snd (Post cb s)) (fresh s) = Pending"
  using assms by (auto simp: Post_def Let_def StartUnlocked_frame split: if_splits)

text \<open>
  C2 (failure capture and isolation). Client 0 posts a callback that throws and one that
  returns. The worker catches the exception in the wrapper, stores it in the shared state
  of the promise and goes on to execute the second wrapper. The future that \<^verbatim>\<open>Post\<close>
  returned for the throwing callback has no shared state, because line 66 moved it into
  the registered \<^verbatim>\<open>std::shared_future\<close>: the handle of the caller never holds the
  failure, which only the registry can see.
\<close>

theorem failed_task_handle_has_no_state:
  "fst (Post (Throws (User_exception 7)) (init 1 :: nat state)) = No_state \<and>
   run [Call_Post 0 (Throws (User_exception 7)), Call_Post 0 (Returns ()),
     Worker 0, Worker 0, Worker 0, Worker 0] (init 1 :: nat state) \<noteq> None \<and>
   executed (the (run [Call_Post 0 (Throws (User_exception 7)), Call_Post 0 (Returns ()),
     Worker 0, Worker 0, Worker 0, Worker 0] (init 1 :: nat state))) =
     [Untyped (Throws (User_exception 7)) 0, Untyped (Returns ()) 1] \<and>
   status (the (run [Call_Post 0 (Throws (User_exception 7)), Call_Post 0 (Returns ()),
     Worker 0, Worker 0, Worker 0, Worker 0] (init 1 :: nat state))) = Live \<and>
   void_states (the (run [Call_Post 0 (Throws (User_exception 7)), Call_Post 0 (Returns ()),
     Worker 0, Worker 0, Worker 0, Worker 0] (init 1 :: nat state))) 0 =
     Failed (User_exception 7) \<and>
   void_states (the (run [Call_Post 0 (Throws (User_exception 7)), Call_Post 0 (Returns ()),
     Worker 0, Worker 0, Worker 0, Worker 0] (init 1 :: nat state))) 1 = Fulfilled () \<and>
   get (void_states (the (run [Call_Post 0 (Throws (User_exception 7)),
     Call_Post 0 (Returns ()), Worker 0, Worker 0, Worker 0, Worker 0] (init 1 :: nat state))))
     (fst (Post (Throws (User_exception 7)) (init 1 :: nat state))) = Undefined_no_state \<and>
   get (void_states (the (run [Call_Post 0 (Throws (User_exception 7)),
     Call_Post 0 (Returns ()), Worker 0, Worker 0, Worker 0, Worker 0] (init 1 :: nat state))))
     (Has_state 0) = Rethrows (User_exception 7)"
  by (simp add: eval_defs)

text \<open>
  C6 (one-shot handle completion). Client 0 posts a callback that returns, and the worker
  executes it: the shared state of its promise goes from pending to fulfilled by one
  store. The future that \<^verbatim>\<open>Post\<close> returned has no shared state, right after the call
  and after the execution: the handle of the caller makes no transition at all.
\<close>

theorem untyped_handle_never_completes:
  "fst (Post (Returns ()) (init 1 :: nat state)) = No_state \<and>
   void_states (snd (Post (Returns ()) (init 1 :: nat state))) 0 = Pending \<and>
   pending_futures (snd (Post (Returns ()) (init 1 :: nat state))) = [0] \<and>
   get (void_states (snd (Post (Returns ()) (init 1 :: nat state))))
     (fst (Post (Returns ()) (init 1 :: nat state))) = Undefined_no_state \<and>
   run [Call_Post 0 (Returns ()), Worker 0, Worker 0] (init 1 :: nat state) \<noteq> None \<and>
   executed (the (run [Call_Post 0 (Returns ()), Worker 0, Worker 0] (init 1 :: nat state))) =
     [Untyped (Returns ()) 0] \<and>
   void_states (the (run [Call_Post 0 (Returns ()), Worker 0, Worker 0]
     (init 1 :: nat state))) 0 = Fulfilled () \<and>
   get (void_states (the (run [Call_Post 0 (Returns ()), Worker 0, Worker 0]
     (init 1 :: nat state)))) (fst (Post (Returns ()) (init 1 :: nat state))) =
     Undefined_no_state"
  by (simp add: eval_defs)

lemma Post_typed_effect:
  assumes "status (snd (Post_typed cb s)) \<noteq> Terminated"
  shows "fst (Post_typed cb s) = Has_state (fresh s)"
    "callbacks (snd (Post_typed cb s)) = callbacks s @ [Typed cb (fresh s) (Suc (fresh s))]"
    "posted (snd (Post_typed cb s)) = posted s @ [Typed cb (fresh s) (Suc (fresh s))]"
    "pending_futures (snd (Post_typed cb s)) = pending_futures s @ [Suc (fresh s)]"
    "typed_states (snd (Post_typed cb s)) (fresh s) = Pending"
    "void_states (snd (Post_typed cb s)) (Suc (fresh s)) = Pending"
    "running (snd (Post_typed cb s))"
  using assms StartUnlocked_running [of "s\<lparr>typed_states := (typed_states s)(fresh s := Pending),
      fresh := Suc (fresh s)\<rparr>"]
  by (auto simp: Post_typed_def Let_def StartUnlocked_frame split: if_splits)

lemma get_final:
  "ts p = final cb \<Longrightarrow>
   get ts (Has_state p) = (case cb of Returns v \<Rightarrow> Value v | Throws e \<Rightarrow> Rethrows e)"
  by (cases cb) simp_all

lemma ready_final [simp]: "ready (final cb)" "ready (void_final cb)"
  by (cases cb; simp)+

text \<open>
  The promises of a typed wrapper that was pushed: both pending, or the typed promise holds
  the outcome and the void promise is pending, or both hold the outcome.
\<close>

lemma posted_typed:
  assumes "reach s" "Typed cb p vp \<in> set (posted s)"
  shows "(Typed cb p vp \<in> set (executed s) \<longrightarrow>
       typed_states s p = final cb \<and> void_states s vp = void_final cb) \<and>
    (Typed cb p vp \<in> set (callbacks s) \<longrightarrow>
       typed_states s p = Pending \<and> void_states s vp = Pending) \<and>
    ((typed_states s p = Pending \<and> void_states s vp = Pending) \<or>
     (typed_states s p = final cb \<and> void_states s vp = Pending) \<or>
     (typed_states s p = final cb \<and> void_states s vp = void_final cb))"
proof -
  note i = reach_inv [OF assms(1)]
  let ?w = "Typed cb p vp"
  have a: "?w \<in> set (executed s) \<Longrightarrow> settled (void_states s) (typed_states s) ?w"
    using invD(4) [OF i] unfolding inv_cells_def by blast
  have b: "?w \<in> set (callbacks s) \<Longrightarrow> unsettled (void_states s) (typed_states s) ?w"
    using invD(4) [OF i] unfolding inv_cells_def by blast
  have c: "(typed_states s p = Pending \<or> typed_states s p = final cb) \<and>
      void_states s vp = Pending" if f: "?w \<in> set (in_flight s)"
  proof -
    from f obtain pc where pc: "pc \<in> set (threads s)" "?w \<in> set (in_call pc)"
      by (auto simp: in_flight_def)
    with invD(4) [OF i] have "pc_ok (void_states s) (typed_states s) pc"
      unfolding inv_cells_def by blast
    with pc(2) show ?thesis by (cases pc) auto
  qed
  from invD(1) [OF i] assms(2)
  have "?w \<in> set (executed s) \<or> ?w \<in> set (in_flight s) \<or> ?w \<in> set (callbacks s)"
    by (auto simp: inv_hist_def)
  with a b c show ?thesis by auto
qed

lemma second_store:
  assumes "reach s" "status s = Live \<or> status s = Destructing" "t < length (threads s)"
    and "threads s ! t = W_103 (Typed cb p vp) \<and> x = Fulfilled () \<or>
         threads s ! t = W_107 (Typed cb p vp) e \<and> x = Failed e"
  shows "typed_states s p = final cb \<and> void_final cb = x \<and> void_states s vp = Pending \<and>
    (\<exists>s'. exec (Worker t) s = Some s' \<and> typed_states s' p = typed_states s p \<and>
       void_states s' vp = x \<and> executed s' = executed s @ [Typed cb p vp])"
proof -
  note i = reach_inv [OF assms(1)]
  from assms(2) have st: "status s \<noteq> Terminated" by auto
  from assms(4) have ne: "threads s ! t \<noteq> W_exited" by auto
  note j = worker_is_joinable [OF invD(2) [OF i] st assms(3) ne]
  from thread_pc_ok [OF i assms(3)] assms(4)
  have k: "typed_states s p = final cb" "void_final cb = x" "void_states s vp = Pending"
    by auto
  define s' where "s' = set_pc t W_inner
      (s\<lparr>void_states := (void_states s)(vp := x),
         executed := executed s @ [Typed cb p vp]\<rparr>)"
  from assms(4) worker_in_wrapper(3,4) [OF i assms(2) j, of cb p vp]
  have e: "exec (Worker t) s = Some s'"
    unfolding s'_def by (auto simp del: exec.simps)
  have "typed_states s' p = typed_states s p" "void_states s' vp = x"
    "executed s' = executed s @ [Typed cb p vp]"
    by (simp_all add: s'_def set_pc_def)
  with e have "\<exists>s'. exec (Worker t) s = Some s' \<and> typed_states s' p = typed_states s p \<and>
       void_states s' vp = x \<and> executed s' = executed s @ [Typed cb p vp]"
    by blast
  with k show ?thesis by (simp del: exec.simps)
qed

text \<open>
  C7 (typed submission), as amended: the typed handle is completed first and the void
  signal by the next store of the same wrapper call. Unless it terminates the process,
  \<^verbatim>\<open>Post<T>\<close> returns the future of a new pending typed promise, queues the wrapper
  with that promise and a new pending void promise, and appends the future of the void
  promise to \<^verbatim>\<open>pending_futures_\<close>. In every reachable state, for a typed wrapper that
  was pushed: while it is queued, \<^verbatim>\<open>get\<close> on the typed future blocks and the void
  promise is pending; once it is executed, \<^verbatim>\<open>get\<close> yields the value the callback
  returned or rethrows what it threw, and the void promise holds the same outcome without
  the value; a typed promise that is ready holds the outcome of its callback; and when the
  void promise is ready, so is the typed one. Between the two stores of the wrapper the
  typed promise holds the outcome, the void promise is pending, and the next step of the
  worker completes the void promise and ends the execution of the wrapper.
\<close>

theorem typed_submission:
  "(status (snd (Post_typed callback s)) \<noteq> Terminated \<longrightarrow>
      fst (Post_typed callback s) = Has_state (fresh s) \<and>
      callbacks (snd (Post_typed callback s)) =
        callbacks s @ [Typed callback (fresh s) (Suc (fresh s))] \<and>
      pending_futures (snd (Post_typed callback s)) = pending_futures s @ [Suc (fresh s)] \<and>
      typed_states (snd (Post_typed callback s)) (fresh s) = Pending \<and>
      void_states (snd (Post_typed callback s)) (Suc (fresh s)) = Pending) \<and>
   (reach s \<longrightarrow> (\<forall>cb p vp. Typed cb p vp \<in> set (posted s) \<longrightarrow>
      (Typed cb p vp \<in> set (callbacks s) \<longrightarrow>
         get (typed_states s) (Has_state p) = Blocks \<and> void_states s vp = Pending) \<and>
      (Typed cb p vp \<in> set (executed s) \<longrightarrow>
         get (typed_states s) (Has_state p) =
           (case cb of Returns v \<Rightarrow> Value v | Throws e \<Rightarrow> Rethrows e) \<and>
         void_states s vp = void_final cb) \<and>
      (ready (typed_states s p) \<longrightarrow> typed_states s p = final cb) \<and>
      (ready (void_states s vp) \<longrightarrow>
         typed_states s p = final cb \<and> void_states s vp = void_final cb))) \<and>
   (reach s \<longrightarrow> (\<forall>t cb p vp e. t < length (threads s) \<longrightarrow>
      status s = Live \<or> status s = Destructing \<longrightarrow>
      (threads s ! t = W_103 (Typed cb p vp) \<longrightarrow>
         typed_states s p = final cb \<and> void_states s vp = Pending \<and>
         (\<exists>s'. exec (Worker t) s = Some s' \<and> typed_states s' p = typed_states s p \<and>
            void_states s' vp = Fulfilled () \<and> executed s' = executed s @ [Typed cb p vp])) \<and>
      (threads s ! t = W_107 (Typed cb p vp) e \<longrightarrow>
         typed_states s p = final cb \<and> void_states s vp = Pending \<and>
         (\<exists>s'. exec (Worker t) s = Some s' \<and> typed_states s' p = typed_states s p \<and>
            void_states s' vp = Failed e \<and> executed s' = executed s @ [Typed cb p vp]))))"
proof (intro conjI impI allI)
  assume "status (snd (Post_typed callback s)) \<noteq> Terminated"
  note e = Post_typed_effect [OF this]
  show "fst (Post_typed callback s) = Has_state (fresh s)" by (rule e(1))
  show "callbacks (snd (Post_typed callback s)) =
        callbacks s @ [Typed callback (fresh s) (Suc (fresh s))]" by (rule e(2))
  show "pending_futures (snd (Post_typed callback s)) = pending_futures s @ [Suc (fresh s)]"
    by (rule e(4))
  show "typed_states (snd (Post_typed callback s)) (fresh s) = Pending" by (rule e(5))
  show "void_states (snd (Post_typed callback s)) (Suc (fresh s)) = Pending" by (rule e(6))
next
  fix cb p vp
  assume r: "reach s" and m: "Typed cb p vp \<in> set (posted s)"
  note t = posted_typed [OF r m]
  {
    assume "Typed cb p vp \<in> set (callbacks s)"
    with t have x: "typed_states s p = Pending" "void_states s vp = Pending" by simp_all
    show "get (typed_states s) (Has_state p) = Blocks" by (simp add: x(1))
    show "void_states s vp = Pending" by (rule x(2))
  }
  {
    assume "Typed cb p vp \<in> set (executed s)"
    with t have x: "typed_states s p = final cb" "void_states s vp = void_final cb" by simp_all
    show "get (typed_states s) (Has_state p) =
        (case cb of Returns v \<Rightarrow> Value v | Throws e \<Rightarrow> Rethrows e)"
      using x(1) by (rule get_final)
    show "void_states s vp = void_final cb" by (rule x(2))
  }
  {
    assume "ready (typed_states s p)"
    with t show "typed_states s p = final cb" by auto
  }
  {
    assume "ready (void_states s vp)"
    with t show "typed_states s p = final cb" "void_states s vp = void_final cb" by auto
  }
next
  fix t cb p vp e
  assume r: "reach s" and l: "t < length (threads s)"
    and st: "status s = Live \<or> status s = Destructing"
  {
    assume "threads s ! t = W_103 (Typed cb p vp)"
    then have "threads s ! t = W_103 (Typed cb p vp) \<and> Fulfilled () = Fulfilled () \<or>
        threads s ! t = W_107 (Typed cb p vp) e \<and> (Fulfilled () :: unit shared_state) = Failed e"
      by simp
    note x = second_store [OF r st l this]
    from x show "typed_states s p = final cb" "void_states s vp = Pending" by simp_all
    from x show "\<exists>s'. exec (Worker t) s = Some s' \<and> typed_states s' p = typed_states s p \<and>
         void_states s' vp = Fulfilled () \<and> executed s' = executed s @ [Typed cb p vp]"
      by blast
  }
  {
    assume "threads s ! t = W_107 (Typed cb p vp) e"
    then have "threads s ! t = W_103 (Typed cb p vp) \<and> Failed e = Fulfilled () \<or>
        threads s ! t = W_107 (Typed cb p vp) e \<and> (Failed e :: unit shared_state) = Failed e"
      by simp
    note x = second_store [OF r st l this]
    from x show "typed_states s p = final cb" "void_states s vp = Pending" by simp_all
    from x show "\<exists>s'. exec (Worker t) s = Some s' \<and> typed_states s' p = typed_states s p \<and>
         void_states s' vp = Failed e \<and> executed s' = executed s @ [Typed cb p vp]"
      by blast
  }
qed

theorem typed_submission_witness:
  "\<exists>s0 s u w v. s0 = (init 1 :: nat state) \<and>
     status (snd (Post_typed (Returns 42) s0)) \<noteq> Terminated \<and>
     fst (Post_typed (Returns 42) s0) = Has_state 0 \<and>
     callbacks (snd (Post_typed (Returns 42) s0)) = [Typed (Returns 42) 0 1] \<and>
     pending_futures (snd (Post_typed (Returns 42) s0)) = [1] \<and>
     run [Call_Post_typed 0 (Returns 42), Call_Post_typed 0 (Throws (User_exception 5)),
        Worker 0, Worker 0] s0 = Some s \<and>
     reach s \<and> posted s = [Typed (Returns 42) 0 1, Typed (Throws (User_exception 5)) 2 3] \<and>
     callbacks s = [Typed (Throws (User_exception 5)) 2 3] \<and>
     get (typed_states s) (Has_state 2) = Blocks \<and> void_states s 3 = Pending \<and>
     threads s ! 0 = W_103 (Typed (Returns 42) 0 1) \<and>
     typed_states s 0 = Fulfilled 42 \<and> void_states s 1 = Pending \<and>
     exec (Worker 0) s = Some u \<and> reach u \<and> executed u = [Typed (Returns 42) 0 1] \<and>
     get (typed_states u) (Has_state 0) = Value 42 \<and> void_states u 1 = Fulfilled () \<and>
     run [Worker 0, Worker 0] u = Some w \<and> reach w \<and>
     threads w ! 0 = W_107 (Typed (Throws (User_exception 5)) 2 3) (User_exception 5) \<and>
     typed_states w 2 = Failed (User_exception 5) \<and> void_states w 3 = Pending \<and>
     exec (Worker 0) w = Some v \<and> reach v \<and>
     executed v = [Typed (Returns 42) 0 1, Typed (Throws (User_exception 5)) 2 3] \<and>
     get (typed_states v) (Has_state 2) = Rethrows (User_exception 5) \<and>
     void_states v 3 = Failed (User_exception 5)"
proof -
  have "\<exists>s0 s u w v. s0 = (init 1 :: nat state) \<and>
     status (snd (Post_typed (Returns 42) s0)) \<noteq> Terminated \<and>
     fresh s0 = 0 \<and> callbacks s0 = [] \<and> pending_futures s0 = [] \<and>
     run [Call_Post_typed 0 (Returns 42), Call_Post_typed 0 (Throws (User_exception 5)),
        Worker 0, Worker 0] s0 = Some s \<and>
     posted s = [Typed (Returns 42) 0 1, Typed (Throws (User_exception 5)) 2 3] \<and>
     callbacks s = [Typed (Throws (User_exception 5)) 2 3] \<and>
     0 < length (threads s) \<and> status s = Live \<and>
     threads s ! 0 = W_103 (Typed (Returns 42) 0 1) \<and>
     exec (Worker 0) s = Some u \<and>
     posted u = [Typed (Returns 42) 0 1, Typed (Throws (User_exception 5)) 2 3] \<and>
     executed u = [Typed (Returns 42) 0 1] \<and>
     run [Worker 0, Worker 0] u = Some w \<and>
     0 < length (threads w) \<and> status w = Live \<and>
     threads w ! 0 = W_107 (Typed (Throws (User_exception 5)) 2 3) (User_exception 5) \<and>
     exec (Worker 0) w = Some v \<and>
     posted v = [Typed (Returns 42) 0 1, Typed (Throws (User_exception 5)) 2 3] \<and>
     executed v = [Typed (Returns 42) 0 1, Typed (Throws (User_exception 5)) 2 3]"
    by (simp add: eval_defs)
  then obtain s0 s u w v :: "nat state" where
    i: "s0 = (init 1 :: nat state)" "status (snd (Post_typed (Returns 42) s0)) \<noteq> Terminated"
      "fresh s0 = 0" "callbacks s0 = []" "pending_futures s0 = []"
    and s: "run [Call_Post_typed 0 (Returns 42), Call_Post_typed 0 (Throws (User_exception 5)),
        Worker 0, Worker 0] s0 = Some s"
      "posted s = [Typed (Returns 42) 0 1, Typed (Throws (User_exception 5)) 2 3]"
      "callbacks s = [Typed (Throws (User_exception 5)) 2 3]"
      "0 < length (threads s)" "status s = Live"
      "threads s ! 0 = W_103 (Typed (Returns 42) 0 1)"
    and u: "exec (Worker 0) s = Some u"
      "posted u = [Typed (Returns 42) 0 1, Typed (Throws (User_exception 5)) 2 3]"
      "executed u = [Typed (Returns 42) 0 1]"
    and w: "run [Worker 0, Worker 0] u = Some w"
      "0 < length (threads w)" "status w = Live"
      "threads w ! 0 = W_107 (Typed (Throws (User_exception 5)) 2 3) (User_exception 5)"
    and v: "exec (Worker 0) w = Some v"
      "posted v = [Typed (Returns 42) 0 1, Typed (Throws (User_exception 5)) 2 3]"
      "executed v = [Typed (Returns 42) 0 1, Typed (Throws (User_exception 5)) 2 3]"
    by blast
  have rs: "reach s" using s(1) unfolding i(1) by (rule reach_run)
  have ru: "reach u" using rs u(1) by (rule reach_exec)
  have rw: "reach w" using ru w(1) by (rule reach_steps)
  have rv: "reach v" using rw v(1) by (rule reach_exec)
  from typed_submission [of "Returns 42" s0, THEN conjunct1, rule_format, OF i(2)]
  have a: "fst (Post_typed (Returns 42) s0) = Has_state 0"
    "callbacks (snd (Post_typed (Returns 42) s0)) = [Typed (Returns 42) 0 1]"
    "pending_futures (snd (Post_typed (Returns 42) s0)) = [1]"
    by (simp_all add: i(3,4,5))
  have m2: "Typed (Throws (User_exception 5)) 2 3 \<in> set (posted s)"
    and q2: "Typed (Throws (User_exception 5)) 2 3 \<in> set (callbacks s)"
    and sl: "status s = Live \<or> status s = Destructing"
    by (simp_all add: s)
  from typed_submission [of "Returns 42" s, THEN conjunct2, THEN conjunct1, rule_format,
      OF rs m2, THEN conjunct1, rule_format, OF q2]
  have b: "get (typed_states s) (Has_state 2) = Blocks" "void_states s 3 = Pending"
    by simp_all
  from typed_submission [of "Returns 42" s, THEN conjunct2, THEN conjunct2, rule_format,
      OF rs s(4) sl, THEN conjunct1, rule_format, OF s(6)]
  have c: "typed_states s 0 = Fulfilled 42" "void_states s 1 = Pending"
    by simp_all
  have m0: "Typed (Returns 42) 0 1 \<in> set (posted u)"
    and e0: "Typed (Returns 42) 0 1 \<in> set (executed u)"
    by (simp_all add: u)
  from typed_submission [of "Returns 42" u, THEN conjunct2, THEN conjunct1, rule_format,
      OF ru m0, THEN conjunct2, THEN conjunct1, rule_format, OF e0]
  have d: "get (typed_states u) (Has_state 0) = Value 42" "void_states u 1 = Fulfilled ()"
    by simp_all
  have wl: "status w = Live \<or> status w = Destructing" by (simp add: w)
  from typed_submission [of "Returns 42" w, THEN conjunct2, THEN conjunct2, rule_format,
      OF rw w(2) wl, THEN conjunct2, rule_format, OF w(4)]
  have f: "typed_states w 2 = Failed (User_exception 5)" "void_states w 3 = Pending"
    by simp_all
  have m2': "Typed (Throws (User_exception 5)) 2 3 \<in> set (posted v)"
    and e2': "Typed (Throws (User_exception 5)) 2 3 \<in> set (executed v)"
    by (simp_all add: v)
  from typed_submission [of "Returns 42" v, THEN conjunct2, THEN conjunct1, rule_format,
      OF rv m2', THEN conjunct2, THEN conjunct1, rule_format, OF e2']
  have g: "get (typed_states v) (Has_state 2) = Rethrows (User_exception 5)"
    "void_states v 3 = Failed (User_exception 5)"
    by simp_all
  from i s u w v rs ru rw rv a b c d f g show ?thesis by blast
qed

text \<open>
  The typed handle is ready while the void signal is not: client 0 posts a callback that
  returns 42, the worker pops the wrapper and makes the store of line 102. The typed
  future yields 42; the promise whose future \<^verbatim>\<open>WaitAll\<close> would wait for is pending
  until the worker makes the store of line 103.
\<close>

theorem typed_ready_before_void_signal:
  "run [Call_Post_typed 0 (Returns 42), Worker 0, Worker 0] (init 1 :: nat state) \<noteq> None \<and>
   posted (the (run [Call_Post_typed 0 (Returns 42), Worker 0, Worker 0]
     (init 1 :: nat state))) = [Typed (Returns 42) 0 1] \<and>
   pending_futures (the (run [Call_Post_typed 0 (Returns 42), Worker 0, Worker 0]
     (init 1 :: nat state))) = [1] \<and>
   threads (the (run [Call_Post_typed 0 (Returns 42), Worker 0, Worker 0]
     (init 1 :: nat state))) = [W_103 (Typed (Returns 42) 0 1)] \<and>
   get (typed_states (the (run [Call_Post_typed 0 (Returns 42), Worker 0, Worker 0]
     (init 1 :: nat state)))) (Has_state 0) = Value 42 \<and>
   ready (typed_states (the (run [Call_Post_typed 0 (Returns 42), Worker 0, Worker 0]
     (init 1 :: nat state))) 0) \<and>
   void_states (the (run [Call_Post_typed 0 (Returns 42), Worker 0, Worker 0]
     (init 1 :: nat state))) 1 = Pending \<and>
   get (void_states (the (run [Call_Post_typed 0 (Returns 42), Worker 0, Worker 0]
     (init 1 :: nat state)))) (Has_state 1) = Blocks \<and>
   status (the (run [Call_Post_typed 0 (Returns 42), Worker 0, Worker 0]
     (init 1 :: nat state))) = Live"
  by (simp add: eval_defs)

lemma WaitAll_enter_effect:
  assumes "exec (WaitAll_enter c) s = Some s'"
  shows "pending_futures s' = [] \<and>
    clients s' ! c = In_WaitAll (pending_futures s) (pending_futures s) \<and>
    WaitAll_locked s = (pending_futures s, s\<lparr>pending_futures := []\<rparr>)"
  using assms by (auto simp: idle_def WaitAll_locked_def set_client_def split: if_splits)

lemma WaitAll_wait_effect:
  assumes "exec (WaitAll_wait c) s = Some s'" "clients s ! c = In_WaitAll snapshot rest"
  shows "\<exists>future rest'. rest = future # rest' \<and> ready (void_states s future) \<and>
    clients s' ! c = In_WaitAll snapshot rest'"
  using assms by (auto simp: set_client_def split: if_splits client_pc.splits list.splits)

lemma WaitAll_return_effect:
  assumes "inv s" "c < length (clients s)" "clients s ! c = In_WaitAll snapshot rest"
    "exec (WaitAll_return c) s = Some s'"
  shows "rest = [] \<and> (\<forall>h \<in> set snapshot. ready (void_states s h)) \<and> clients s' ! c = Idle"
proof -
  from assms(2,3) have "In_WaitAll snapshot rest \<in> set (clients s)" by (metis nth_mem)
  with invD(5) [OF assms(1)]
  have ok: "client_ok (posted s) (fresh s) (void_states s) (In_WaitAll snapshot rest)"
    unfolding inv_clients_def by blast
  from assms(2,3,4) have r: "rest = []" and i: "clients s' ! c = Idle"
    by (auto simp: set_client_def split: if_splits list.splits)
  from ok r i show ?thesis by simp
qed

lemma snapshot_allocated:
  assumes "inv s" "c < length (clients s)" "clients s ! c = In_WaitAll snapshot rest"
  shows "fresh s \<notin> set snapshot \<and> Suc (fresh s) \<notin> set snapshot"
proof -
  from assms(2,3) have "In_WaitAll snapshot rest \<in> set (clients s)" by (metis nth_mem)
  with invD(5) [OF assms(1)]
  have "client_ok (posted s) (fresh s) (void_states s) (In_WaitAll snapshot rest)"
    unfolding inv_clients_def by blast
  then have "\<forall>h \<in> set snapshot. h < fresh s" by simp
  then show ?thesis by auto
qed

text \<open>
  What \<^verbatim>\<open>WaitAll\<close> waits for are the futures of its copy. The critical section of \<^verbatim>\<open>WaitAll\<close> copies \<^verbatim>\<open>pending_futures_\<close> and
  clears it. The loop goes past a future only when it is ready, and \<^verbatim>\<open>WaitAll\<close>
  returns only when every future of its copy is ready. A submission made while a client is
  inside \<^verbatim>\<open>WaitAll\<close> leaves the copy of that client as it is: the new void future is
  not in the copy, it is pending and it is the last entry of \<^verbatim>\<open>pending_futures_\<close>,
  where the next \<^verbatim>\<open>WaitAll\<close> finds it.
\<close>

lemma waitall_waits_for_its_copy:
  assumes "reach s"
  shows "(\<forall>c s'. exec (WaitAll_enter c) s = Some s' \<longrightarrow>
       pending_futures s' = [] \<and>
       clients s' ! c = In_WaitAll (pending_futures s) (pending_futures s)) \<and>
    (\<forall>c snapshot rest. c < length (clients s) \<longrightarrow> clients s ! c = In_WaitAll snapshot rest \<longrightarrow>
       (\<forall>s'. exec (WaitAll_wait c) s = Some s' \<longrightarrow>
          (\<exists>future rest'. rest = future # rest' \<and> ready (void_states s future) \<and>
             clients s' ! c = In_WaitAll snapshot rest')) \<and>
       (\<forall>s'. exec (WaitAll_return c) s = Some s' \<longrightarrow>
          (\<forall>h. h \<in> set snapshot \<longrightarrow> ready (void_states s h)) \<and> clients s' ! c = Idle) \<and>
       (\<forall>d cb s'. exec (Call_Post d cb) s = Some s' \<longrightarrow> status s' \<noteq> Terminated \<longrightarrow>
          clients s' ! c = In_WaitAll snapshot rest \<and> fresh s \<notin> set snapshot \<and>
          pending_futures s' = pending_futures s @ [fresh s] \<and>
          void_states s' (fresh s) = Pending) \<and>
       (\<forall>d cb s'. exec (Call_Post_typed d cb) s = Some s' \<longrightarrow> status s' \<noteq> Terminated \<longrightarrow>
          clients s' ! c = In_WaitAll snapshot rest \<and> Suc (fresh s) \<notin> set snapshot \<and>
          pending_futures s' = pending_futures s @ [Suc (fresh s)] \<and>
          void_states s' (Suc (fresh s)) = Pending))"
proof (intro conjI allI impI)
  fix c s' assume "exec (WaitAll_enter c) s = Some s'"
  from WaitAll_enter_effect [OF this]
  show "pending_futures s' = []"
    "clients s' ! c = In_WaitAll (pending_futures s) (pending_futures s)" by simp_all
next
  fix c snapshot rest s'
  assume "clients s ! c = In_WaitAll snapshot rest" "exec (WaitAll_wait c) s = Some s'"
  from WaitAll_wait_effect [OF this(2,1)]
  show "\<exists>future rest'. rest = future # rest' \<and> ready (void_states s future) \<and>
             clients s' ! c = In_WaitAll snapshot rest'" .
next
  fix c snapshot rest s' h
  assume a: "c < length (clients s)" "clients s ! c = In_WaitAll snapshot rest"
    "exec (WaitAll_return c) s = Some s'"
  note e = WaitAll_return_effect [OF reach_inv [OF assms] a]
  show "clients s' ! c = Idle" using e by simp
  assume "h \<in> set snapshot"
  with e show "ready (void_states s h)" by simp
next
  fix c snapshot rest d cb s'
  assume a: "c < length (clients s)" "clients s ! c = In_WaitAll snapshot rest"
    and e: "exec (Call_Post d cb) s = Some s'" and t: "status s' \<noteq> Terminated"
  from e have s': "s' = snd (Post cb s)" by (auto split: if_splits)
  note p = Post_effect [OF t [unfolded s']]
  show "clients s' ! c = In_WaitAll snapshot rest"
    using Post_control [of cb s] a(2) by (simp add: s')
  show "fresh s \<notin> set snapshot" using snapshot_allocated [OF reach_inv [OF assms] a] by simp
  show "pending_futures s' = pending_futures s @ [fresh s]" unfolding s' by (rule p(3))
  show "void_states s' (fresh s) = Pending" unfolding s' by (rule p(4))
next
  fix c snapshot rest d cb s'
  assume a: "c < length (clients s)" "clients s ! c = In_WaitAll snapshot rest"
    and e: "exec (Call_Post_typed d cb) s = Some s'" and t: "status s' \<noteq> Terminated"
  from e have s': "s' = snd (Post_typed cb s)" by (auto split: if_splits)
  note p = Post_typed_effect [OF t [unfolded s']]
  show "clients s' ! c = In_WaitAll snapshot rest"
    using Post_typed_control [of cb s] a(2) by (simp add: s')
  show "Suc (fresh s) \<notin> set snapshot"
    using snapshot_allocated [OF reach_inv [OF assms] a] by simp
  show "pending_futures s' = pending_futures s @ [Suc (fresh s)]" unfolding s' by (rule p(4))
  show "void_states s' (Suc (fresh s)) = Pending" unfolding s' by (rule p(6))
qed

text \<open>
  C4 (\<^verbatim>\<open>WaitAll\<close>). A \<^verbatim>\<open>WaitAll\<close> that starts while another client is inside
  \<^verbatim>\<open>WaitAll\<close> finds \<^verbatim>\<open>pending_futures_\<close> cleared: client 0 posts a callback and
  enters \<^verbatim>\<open>WaitAll\<close>, then client 1 calls \<^verbatim>\<open>WaitAll\<close>, copies an empty registry and
  returns while the wrapper that was posted before its call has not been called and its
  promise is pending.
\<close>

theorem waitall_second_caller_returns_early:
  "run [Call_Post 0 (Returns ()), WaitAll_enter 0, WaitAll_enter 1, WaitAll_return 1]
     (init 2 :: nat state) \<noteq> None \<and>
   posted (the (run [Call_Post 0 (Returns ()), WaitAll_enter 0, WaitAll_enter 1, WaitAll_return 1]
     (init 2 :: nat state))) = [Untyped (Returns ()) 0] \<and>
   executed (the (run [Call_Post 0 (Returns ()), WaitAll_enter 0, WaitAll_enter 1, WaitAll_return 1]
     (init 2 :: nat state))) = [] \<and>
   clients (the (run [Call_Post 0 (Returns ()), WaitAll_enter 0, WaitAll_enter 1, WaitAll_return 1]
     (init 2 :: nat state))) = [In_WaitAll [0] [0], Idle] \<and>
   void_states (the (run [Call_Post 0 (Returns ()), WaitAll_enter 0, WaitAll_enter 1,
     WaitAll_return 1] (init 2 :: nat state))) 0 = Pending \<and>
   status (the (run [Call_Post 0 (Returns ()), WaitAll_enter 0, WaitAll_enter 1, WaitAll_return 1]
     (init 2 :: nat state))) = Live"
  by (simp add: eval_defs numeral_2_eq_2)


end
